theory Spec2Isabelle
  imports Complex_Main "HOL-Library.Word"
begin

unbundle bit_operations_syntax

section \<open>JavaScript numbers\<close>

text \<open>
  A JavaScript \<open>number\<close> is an IEEE-754 double (binary64). A value of the model is one
  of the special values \<open>Infinity\<close>, \<open>-Infinity\<close>, \<open>NaN\<close>, or a finite value, held as the
  real number it denotes. Every arithmetic operation computes the exact real result and
  rounds it to the nearest double, ties to even; a result beyond the largest double
  becomes an infinity, a result below the smallest subnormal becomes zero. The sign of
  zero is not kept. The type admits every real as a finite value; the doubles are the
  reals that \<open>round_real 53 (- 1022)\<close> leaves as they are, and every result of an
  operation is one.
\<close>

datatype number = Fin real | PosInf | NegInf | NaN

fun is_finite :: "number \<Rightarrow> bool" where
  "is_finite (Fin r) = True"
| "is_finite _ = False"

fun value_of :: "number \<Rightarrow> real" where
  "value_of (Fin r) = r"
| "value_of _ = 0"

subsection \<open>Rounding to a binary format\<close>

text \<open>
  A binary format has a precision \<open>p\<close> (53 bits for binary64, 24 for binary32) and a
  range of exponents from \<open>emin\<close> to \<open>emax\<close> (-1022 to 1023, and -126 to 127). A non-zero
  real \<open>x\<close> with \<open>2 ^ e <= |x| < 2 ^ (e + 1)\<close> lies between two neighbouring values of the
  format that are multiples of \<open>2 ^ (max e emin - (p - 1))\<close>; it is rounded to the
  nearer one, and to the one with the even multiple when it is half way.
\<close>

definition round_half_even :: "real \<Rightarrow> int" where
  "round_half_even y =
     (let f = \<lfloor>y\<rfloor>; d = y - of_int f
      in if d < 1/2 then f else if 1/2 < d then f + 1 else if even f then f else f + 1)"

definition ulp_exponent :: "nat \<Rightarrow> int \<Rightarrow> real \<Rightarrow> int" where
  "ulp_exponent p emin x = max \<lfloor>log 2 \<bar>x\<bar>\<rfloor> emin - (int p - 1)"

definition round_real :: "nat \<Rightarrow> int \<Rightarrow> real \<Rightarrow> real" where
  "round_real p emin x =
     (if x = 0 then 0
      else of_int (round_half_even (x / 2 powr of_int (ulp_exponent p emin x)))
             * 2 powr of_int (ulp_exponent p emin x))"

definition to_format :: "nat \<Rightarrow> int \<Rightarrow> int \<Rightarrow> real \<Rightarrow> number" where
  "to_format p emin emax x =
     (let r = round_real p emin x
      in if 2 powr of_int (emax + 1) \<le> \<bar>r\<bar> then (if 0 < r then PosInf else NegInf) else Fin r)"

definition double :: "real \<Rightarrow> number" where
  "double x = to_format 53 (- 1022) 1023 x"

definition float32 :: "real \<Rightarrow> number" where
  "float32 x = to_format 24 (- 126) 127 x"

subsection \<open>Arithmetic\<close>

fun num_neg :: "number \<Rightarrow> number" where
  "num_neg (Fin a) = Fin (- a)"
| "num_neg PosInf = NegInf"
| "num_neg NegInf = PosInf"
| "num_neg NaN = NaN"

text \<open>\<open>a + b\<close>: \<open>NaN\<close> is absorbing and \<open>Infinity + -Infinity\<close> is \<open>NaN\<close>.\<close>

fun num_add :: "number \<Rightarrow> number \<Rightarrow> number" where
  "num_add (Fin a) (Fin b) = double (a + b)"
| "num_add (Fin a) PosInf = PosInf"
| "num_add (Fin a) NegInf = NegInf"
| "num_add PosInf (Fin b) = PosInf"
| "num_add PosInf PosInf = PosInf"
| "num_add PosInf NegInf = NaN"
| "num_add NegInf (Fin b) = NegInf"
| "num_add NegInf NegInf = NegInf"
| "num_add NegInf PosInf = NaN"
| "num_add NaN b = NaN"
| "num_add a NaN = NaN"

text \<open>\<open>a - b\<close>. Negation is exact, so this is the difference, rounded once.\<close>

definition num_sub :: "number \<Rightarrow> number \<Rightarrow> number" where
  "num_sub a b = num_add a (num_neg b)"

text \<open>
  \<open>a / b\<close>. A finite non-zero value over zero is an infinity, \<open>0 / 0\<close> and
  \<open>Infinity / Infinity\<close> are \<open>NaN\<close>; the zero divisor is taken as \<open>+0\<close>.
\<close>

fun num_div :: "number \<Rightarrow> number \<Rightarrow> number" where
  "num_div (Fin a) (Fin b) =
     (if b \<noteq> 0 then double (a / b)
      else if a = 0 then NaN
      else if 0 < a then PosInf else NegInf)"
| "num_div (Fin a) PosInf = Fin 0"
| "num_div (Fin a) NegInf = Fin 0"
| "num_div PosInf (Fin b) = (if b < 0 then NegInf else PosInf)"
| "num_div NegInf (Fin b) = (if b < 0 then PosInf else NegInf)"
| "num_div PosInf PosInf = NaN"
| "num_div PosInf NegInf = NaN"
| "num_div NegInf PosInf = NaN"
| "num_div NegInf NegInf = NaN"
| "num_div NaN b = NaN"
| "num_div a NaN = NaN"

text \<open>\<open>a >= b\<close> and \<open>a > b\<close>: every comparison with \<open>NaN\<close> is false.\<close>

fun num_ge :: "number \<Rightarrow> number \<Rightarrow> bool" where
  "num_ge (Fin a) (Fin b) = (b \<le> a)"
| "num_ge NaN b = False"
| "num_ge a NaN = False"
| "num_ge PosInf b = True"
| "num_ge a NegInf = True"
| "num_ge (Fin a) PosInf = False"
| "num_ge NegInf (Fin b) = False"
| "num_ge NegInf PosInf = False"

fun num_gt :: "number \<Rightarrow> number \<Rightarrow> bool" where
  "num_gt (Fin a) (Fin b) = (b < a)"
| "num_gt NaN b = False"
| "num_gt a NaN = False"
| "num_gt a PosInf = False"
| "num_gt NegInf b = False"
| "num_gt PosInf b = True"
| "num_gt (Fin a) NegInf = True"

text \<open>
  \<open>Math.exp\<close>. The language leaves the last bits of the result to the implementation;
  the model takes the exponential rounded to the nearest double, so that a large argument
  gives \<open>Infinity\<close> and a very negative one gives 0. \<open>Math.exp(0)\<close> is 1, as the language
  requires.
\<close>

fun Math_exp :: "number \<Rightarrow> number" where
  "Math_exp (Fin x) = double (exp x)"
| "Math_exp PosInf = PosInf"
| "Math_exp NegInf = Fin 0"
| "Math_exp NaN = NaN"

text \<open>
  Storing into a \<open>Float32Array\<close> rounds the value to the nearest binary32 value.
\<close>

fun Float32Array_store :: "number \<Rightarrow> number" where
  "Float32Array_store (Fin x) = float32 x"
| "Float32Array_store PosInf = PosInf"
| "Float32Array_store NegInf = NegInf"
| "Float32Array_store NaN = NaN"

text \<open>
  \<open>Math.max(...xs)\<close>: \<open>-Infinity\<close> for no argument, \<open>NaN\<close> as soon as one argument is
  \<open>NaN\<close>, the largest argument otherwise.
\<close>

fun max2 :: "number \<Rightarrow> number \<Rightarrow> number" where
  "max2 (Fin a) (Fin b) = Fin (max a b)"
| "max2 NaN b = NaN"
| "max2 a NaN = NaN"
| "max2 PosInf b = PosInf"
| "max2 a PosInf = PosInf"
| "max2 NegInf b = b"
| "max2 a NegInf = a"

definition Math_max :: "number list \<Rightarrow> number" where
  "Math_max xs = foldl max2 NegInf xs"

section \<open>Softmax\<close>

text \<open>
  \<^verbatim>\<open>
  const computeSoftmax = (logits: number[]): number[] => {
    const maxLogit = Math.max(...logits)
    const expScores = logits.map(logit => Math.exp(logit - maxLogit))
    const sumExpScores = expScores.reduce((sum, expScore) => sum + expScore, 0)
    return expScores.map(expScore => expScore / sumExpScores)
  }
  \<close>
  The spread passes every logit as an argument of \<open>Math.max\<close>; the limit an engine
  puts on the number of arguments of a call is not modelled.
\<close>

definition computeSoftmax :: "number list \<Rightarrow> number list" where
  "computeSoftmax logits =
     (let maxLogit = Math_max logits;
          expScores = map (\<lambda>logit. Math_exp (num_sub logit maxLogit)) logits;
          sumExpScores = foldl (\<lambda>sum expScore. num_add sum expScore) (Fin 0) expScores
      in map (\<lambda>expScore. num_div expScore sumExpScores) expScores)"

text \<open>
  The two properties asked of a probability distribution: every entry is a number in
  [0,1], and the entries sum to 1 within 1e-5, both when they are added exactly and when
  they are added the way \<open>reduce((a, b) => a + b, 0)\<close> adds them.
\<close>

fun in_unit_interval :: "number \<Rightarrow> bool" where
  "in_unit_interval (Fin p) = (0 \<le> p \<and> p \<le> 1)"
| "in_unit_interval _ = False"

definition sums_to_one :: "number list \<Rightarrow> bool" where
  "sums_to_one ps =
     (list_all is_finite ps
      \<and> \<bar>(\<Sum>p\<leftarrow>ps. value_of p) - 1\<bar> \<le> 1 / 100000
      \<and> (case foldl num_add (Fin 0) ps of Fin t \<Rightarrow> \<bar>t - 1\<bar> \<le> 1 / 100000 | _ \<Rightarrow> False))"

section \<open>Array helpers\<close>

text \<open>\<open>Array.from({ length: n }, (_, i) => f(i))\<close>.\<close>

definition Array_from :: "nat \<Rightarrow> (nat \<Rightarrow> 'a) \<Rightarrow> 'a list" where
  "Array_from n f = map f [0..<n]"

text \<open>
  \<open>xs.forEach((value, i) => ...)\<close> where the callback updates a captured array: the
  captured array is threaded through the calls.
\<close>

definition forEach :: "('a \<Rightarrow> nat \<Rightarrow> 's \<Rightarrow> 's) \<Rightarrow> 'a list \<Rightarrow> 's \<Rightarrow> 's" where
  "forEach f xs s = fold (\<lambda>(i, x). f x i) (enumerate 0 xs) s"

text \<open>\<open>xs[i]\<close> read as an operand of arithmetic: a missing element is \<open>undefined\<close>,
  which arithmetic turns into \<open>NaN\<close>.\<close>

definition num_at :: "number list \<Rightarrow> nat \<Rightarrow> number" where
  "num_at xs i = (if i < length xs then xs ! i else NaN)"

text \<open>
  \<open>Array.prototype.sort(comparefn)\<close>. The language standard makes the sort stable, and
  a comparator result that is \<open>NaN\<close> counts as 0. The order the standard prescribes for
  a consistent comparator is computed by insertion from the right: an element moves
  behind exactly the elements the comparator puts strictly before it. The sort happens in
  place; the program only uses the array it returns.
\<close>

fun sort_insert :: "('a \<Rightarrow> 'a \<Rightarrow> number) \<Rightarrow> 'a \<Rightarrow> 'a list \<Rightarrow> 'a list" where
  "sort_insert comparefn x [] = [x]"
| "sort_insert comparefn x (y # ys) =
     (if num_gt (comparefn x y) (Fin 0) then y # sort_insert comparefn x ys else x # y # ys)"

definition Array_sort :: "('a \<Rightarrow> 'a \<Rightarrow> number) \<Rightarrow> 'a list \<Rightarrow> 'a list" where
  "Array_sort comparefn xs = foldr (sort_insert comparefn) xs []"

section \<open>Preprocessing\<close>

text \<open>
  The image library (Jimp) is not part of the repository. Its three operations the
  program calls are parameters: \<open>Jimp.read\<close>, which decodes or fails, \<open>image.resize\<close>,
  and \<open>image.getPixelColor(x, y)\<close>, which gives a pixel as the 32-bit integer
  \<open>0xRRGGBBAA\<close>.
\<close>

datatype error =
    External nat  \<comment> \<open>an error raised by the image library, \<open>fetch\<close> or the inference engine\<close>
  | TensorSizeMismatch  \<comment> \<open>\<open>new ort.Tensor\<close>: the data do not fill the dimensions\<close>
  | OutputTensorMalformed  \<comment> \<open>the first \<open>throw new Error\<close> of \<open>runResNetModel\<close>\<close>
  | OutputDataUnexpectedType  \<comment> \<open>the second \<open>throw new Error\<close> of \<open>runResNetModel\<close>\<close>

record ('src, 'img) jimp =
  jimp_read :: "'src \<Rightarrow> error + 'img"
  jimp_resize :: "'img \<Rightarrow> nat \<Rightarrow> nat \<Rightarrow> 'img"
  jimp_getPixelColor :: "'img \<Rightarrow> nat \<Rightarrow> nat \<Rightarrow> 32 word"

text \<open>The object \<open>{r, g, b, a}\<close> that the library's \<open>intToRGBA\<close> returns.\<close>

record RGBA =
  rgba_r :: "8 word"
  rgba_g :: "8 word"
  rgba_b :: "8 word"
  rgba_a :: "8 word"

definition intToRGBA :: "32 word \<Rightarrow> RGBA" where
  "intToRGBA i =
     \<lparr>rgba_r = ucast (drop_bit 24 i), rgba_g = ucast (drop_bit 16 i),
      rgba_b = ucast (drop_bit 8 i), rgba_a = ucast i\<rparr>"

text \<open>
  The literals of the source denote the doubles nearest to them.
\<close>

definition mean :: "number list" where
  "mean = [double 0.485, double 0.456, double 0.406]"

definition std :: "number list" where
  "std = [double 0.229, double 0.224, double 0.225]"

definition width :: nat where "width = 224"
definition height :: nat where "height = 224"
definition channels :: nat where "channels = 3"

text \<open>
  \<^verbatim>\<open>
  const pixelData = Array.from({ length: channels }, (_, c) =>
    Array.from({ length: height }, (_, h) => Array.from({ length: width }, (_, w) => {
      const pixelColor = intToRGBA(image.getPixelColor(w, h))
      const channelValue = c === 0 ? pixelColor.r : (c === 1 ? pixelColor.g : pixelColor.b)
      return (channelValue / 255.0 - mean[c]) / std[c]
  })))
  const result = new Float32Array(channels * height * width)
  pixelData.forEach((channelData, c) => {
    channelData.forEach((rowData, h) => {
      rowData.forEach((value, w) => {
        const index = c * height * width + h * width + w
        result[index] = value
  })})})
  return result
  \<close>
  The argument is \<open>image.getPixelColor\<close> of the resized image. The values of
  \<open>pixelData\<close> are doubles; the write \<open>result[index] = value\<close> rounds each to binary32.
  A typed array ignores a write beyond its length, as a list update does.
\<close>

definition normalize :: "nat \<Rightarrow> 8 word \<Rightarrow> number" where
  "normalize c channelValue =
     num_div (num_sub (num_div (Fin (real (unat channelValue))) (Fin 255)) (num_at mean c))
       (num_at std c)"

definition processPixels :: "(nat \<Rightarrow> nat \<Rightarrow> 32 word) \<Rightarrow> number list" where
  "processPixels getPixelColor =
     (let pixelData =
            Array_from channels (\<lambda>c. Array_from height (\<lambda>h. Array_from width (\<lambda>w.
              let pixelColor = intToRGBA (getPixelColor w h);
                  channelValue =
                    (if c = 0 then rgba_r pixelColor
                     else if c = 1 then rgba_g pixelColor else rgba_b pixelColor)
              in normalize c channelValue)));
          result = replicate (channels * height * width) (Fin 0)
      in forEach (\<lambda>channelData c.
           forEach (\<lambda>rowData h.
             forEach (\<lambda>value w res.
                 res[c * height * width + h * width + w := Float32Array_store value])
               rowData)
             channelData)
           pixelData result)"

definition preprocessImage :: "('src, 'img) jimp \<Rightarrow> 'src \<Rightarrow> error + number list" where
  "preprocessImage J imageInput =
     (case jimp_read J imageInput of
        Inl e \<Rightarrow> Inl e
      | Inr decoded \<Rightarrow>
          (let resized = jimp_resize J decoded 224 224
           in Inr (processPixels (jimp_getPixelColor J resized))))"

section \<open>Ranking\<close>

text \<open>
  The label table \<open>labels.json\<close> is not part of the repository: it is the parameter
  \<open>labels\<close>. \<open>labels[i]\<close> beyond the table is \<open>undefined\<close>, here \<open>None\<close>.
\<close>

record indexedScore =
  score :: number
  index :: nat

record ImagePrediction = indexedScore +
  label :: "string option"

record ImageDetectionResult =
  predictions :: "ImagePrediction list"
  executionTimeMs :: real

definition labels_at :: "string list \<Rightarrow> nat \<Rightarrow> string option" where
  "labels_at labels i = (if i < length labels then Some (labels ! i) else None)"

text \<open>
  The part of \<open>detectImage\<close> between the two clock readings:
  \<^verbatim>\<open>
  const probabilities = computeSoftmax(outputData)
  const indexedScores = probabilities.map((score, index) => ({ score, index }))
  const sortedResults = indexedScores.sort((a, b) => b.score - a.score)
  const topPredictions: ImagePrediction[] = sortedResults.slice(0, 10).map(result => ({
    label: labels[result.index],
    score: result.score,
    index: result.index
  }))
  \<close>
\<close>

definition indexedScores :: "number list \<Rightarrow> indexedScore list" where
  "indexedScores probabilities =
     map (\<lambda>(i, p). \<lparr>score = p, index = i\<rparr>) (enumerate 0 probabilities)"

definition sortedResults :: "number list \<Rightarrow> indexedScore list" where
  "sortedResults probabilities =
     Array_sort (\<lambda>x y. num_sub (score y) (score x)) (indexedScores probabilities)"

definition topPredictions :: "string list \<Rightarrow> number list \<Rightarrow> ImagePrediction list" where
  "topPredictions labels outputData =
     (let probabilities = computeSoftmax outputData
      in map (\<lambda>result. \<lparr>score = score result, index = index result,
                          label = labels_at labels (index result)\<rparr>)
           (take 10 (sortedResults probabilities)))"

section \<open>Model cache, sessions and inference\<close>

text \<open>
  The module has one mutable variable, \<open>cachedModelData\<close>. What lies outside the
  program (\<open>fetch\<close>, the inference engine, the clock) is the environment \<open>env\<close>: each of
  its operations answers from the history of external calls made so far, so that it may
  answer differently each time. The history is kept in the state as \<open>events\<close>; the
  program never reads it. Console output is left out.

  The functions of this section give, for each asynchronous function of the module, its
  run from call to return with no other call of the module running between its
  \<open>await\<close>s. The next section gives the same functions cut at their \<open>await\<close>s, where
  other calls may run.
\<close>

type_synonym session = nat

datatype onnx_value =
    TensorFloat32 "number list"  \<comment> \<open>a tensor whose \<open>data\<close> is a \<open>Float32Array\<close>\<close>
  | TensorOther  \<comment> \<open>a tensor whose \<open>data\<close> is of another type\<close>
  | NoData  \<comment> \<open>a value without a \<open>data\<close> property\<close>

datatype event =
    Fetch "error + 8 word list"  \<comment> \<open>\<open>fetch(modelPath)\<close> and \<open>arrayBuffer()\<close> with their outcome\<close>
  | Create "8 word list"  \<comment> \<open>\<open>ort.InferenceSession.create\<close> on these model bytes\<close>
  | Run session  \<comment> \<open>\<open>session.run\<close>\<close>
  | Now  \<comment> \<open>\<open>performance.now()\<close>\<close>

record env =
  env_fetch :: "event list \<Rightarrow> error + 8 word list"
  env_create :: "event list \<Rightarrow> 8 word list \<Rightarrow> error + session"
  env_run :: "event list \<Rightarrow> session \<Rightarrow> number list \<Rightarrow> error + (string \<rightharpoonup> onnx_value)"
  env_now :: "event list \<Rightarrow> real"

record world =
  cachedModelData :: "8 word list option"
  events :: "event list"

definition initial :: world where
  "initial = \<lparr>cachedModelData = None, events = []\<rparr>"

definition record_event :: "event \<Rightarrow> world \<Rightarrow> world" where
  "record_event ev s = s\<lparr>events := events s @ [ev]\<rparr>"

text \<open>
  \<open>getModelData\<close>: a \<open>Uint8Array\<close> is an object, hence truthy even when empty, so
  \<open>if (cachedModelData)\<close> tests that the cache is filled. The \<open>catch\<close> rethrows.
\<close>

definition getModelData :: "env \<Rightarrow> world \<Rightarrow> (error + 8 word list) \<times> world" where
  "getModelData E s =
     (case cachedModelData s of
        Some cached \<Rightarrow> (Inr cached, s)
      | None \<Rightarrow>
          (case env_fetch E (events s) of
             Inl e \<Rightarrow> (Inl e, record_event (Fetch (Inl e)) s)
           | Inr modelData \<Rightarrow>
               (Inr modelData,
                (record_event (Fetch (Inr modelData)) s)\<lparr>cachedModelData := Some modelData\<rparr>)))"

definition createModelSession :: "env \<Rightarrow> world \<Rightarrow> (error + session) \<times> world" where
  "createModelSession E s =
     (case getModelData E s of
        (Inl e, s1) \<Rightarrow> (Inl e, s1)
      | (Inr modelData, s1) \<Rightarrow>
          (env_create E (events s1) modelData, record_event (Create modelData) s1))"


text \<open>
  \<open>runResNetModel\<close>. The session is created before the \<open>try\<close>; the \<open>catch\<close> rethrows,
  so every failure leaves the function as it arose. \<open>new ort.Tensor('float32', data,
  [1, 3, 224, 224])\<close> throws when the data do not have \<open>1 * 3 * 224 * 224\<close> elements.
  The output is looked up under the name \<open>resnetv17_dense0_fwd\<close>.
\<close>

definition runResNetModel ::
    "env \<Rightarrow> number list \<Rightarrow> world \<Rightarrow> (error + number list \<times> real) \<times> world" where
  "runResNetModel E preprocessedData s =
     (case createModelSession E s of
        (Inl e, s1) \<Rightarrow> (Inl e, s1)
      | (Inr sess, s1) \<Rightarrow>
          (let startTime = env_now E (events s1);
               s2 = record_event Now s1
           in if length preprocessedData \<noteq> 1 * 3 * 224 * 224 then (Inl TensorSizeMismatch, s2)
              else
                (let s3 = record_event (Run sess) s2
                 in case env_run E (events s2) sess preprocessedData of
                      Inl e \<Rightarrow> (Inl e, s3)
                    | Inr results \<Rightarrow>
                        (let endTime = env_now E (events s3);
                             s4 = record_event Now s3;
                             executionTime = endTime - startTime
                         in case results ''resnetv17_dense0_fwd'' of
                              None \<Rightarrow> (Inl OutputTensorMalformed, s4)
                            | Some NoData \<Rightarrow> (Inl OutputTensorMalformed, s4)
                            | Some TensorOther \<Rightarrow> (Inl OutputDataUnexpectedType, s4)
                            | Some (TensorFloat32 outputData) \<Rightarrow>
                                (Inr (outputData, executionTime), s4)))))"

text \<open>
  \<open>detectImage\<close>: the whole body is inside \<open>try\<close>, and the \<open>catch\<close> logs the error and
  returns \<open>null\<close>, here \<open>None\<close>. The time it reports is the one between its own two
  clock readings.
\<close>

definition detectImage ::
    "env \<Rightarrow> string list \<Rightarrow> number list \<Rightarrow> world \<Rightarrow> ImageDetectionResult option \<times> world" where
  "detectImage E labels preprocessedData s =
     (let startTime = env_now E (events s);
          s1 = record_event Now s
      in case runResNetModel E preprocessedData s1 of
           (Inl e, s2) \<Rightarrow> (None, s2)
         | (Inr (outputData, executionTime), s2) \<Rightarrow>
             (let top = topPredictions labels outputData;
                  endTime = env_now E (events s2);
                  s3 = record_event Now s2;
                  totalProcessingTimeMs = endTime - startTime
              in (Some \<lparr>predictions = top, executionTimeMs = totalProcessingTimeMs\<rparr>, s3)))"

section \<open>Asynchronous calls\<close>












section \<open>Calls to the module\<close>








section \<open>Notions used in the statements\<close>

text \<open>
  The 8-bit value of channel \<open>c\<close> of a pixel, with 0 = R, 1 = G, 2 = B.
\<close>

definition channel_of :: "nat \<Rightarrow> RGBA \<Rightarrow> 8 word" where
  "channel_of c px = [rgba_r px, rgba_g px, rgba_b px] ! c"

text \<open>
  The value that the callback of the innermost \<open>Array.from\<close> of \<open>processPixels\<close>
  returns at channel \<open>c\<close>, row \<open>h\<close> and column \<open>w\<close>.
\<close>

definition pixel_value :: "(nat \<Rightarrow> nat \<Rightarrow> 32 word) \<Rightarrow> nat \<Rightarrow> nat \<Rightarrow> nat \<Rightarrow> number" where
  "pixel_value getPixelColor c h w =
     (let pixelColor = intToRGBA (getPixelColor w h);
          channelValue =
            (if c = 0 then rgba_r pixelColor
             else if c = 1 then rgba_g pixelColor else rgba_b pixelColor)
      in normalize c channelValue)"

text \<open>
  Two pixels with the same red, green and blue components; their alpha may differ.
\<close>

definition same_rgb :: "32 word \<Rightarrow> 32 word \<Rightarrow> bool" where
  "same_rgb p q =
     (rgba_r (intToRGBA p) = rgba_r (intToRGBA q) \<and> rgba_g (intToRGBA p) = rgba_g (intToRGBA q)
      \<and> rgba_b (intToRGBA p) = rgba_b (intToRGBA q))"

text \<open>
  The order of the ranking: a higher score first, and among equal scores the lower index
  first.
\<close>

definition ranked :: "'a indexedScore_scheme \<Rightarrow> 'b indexedScore_scheme \<Rightarrow> bool" where
  "ranked x y = (num_gt (score x) (score y) \<or> (score x = score y \<and> index x < index y))"



text \<open>
  A probability as the program computes it: a double between 0 and 1.
\<close>

definition is_probability :: "number \<Rightarrow> bool" where
  "is_probability x =
     (case x of Fin r \<Rightarrow> 0 \<le> r \<and> r \<le> 1 \<and> round_real 53 (- 1022) r = r | _ \<Rightarrow> False)"



section \<open>Concrete inputs\<close>

text \<open>
  An image library that decodes every source to a 224 x 224 image whose pixels all are
  \<open>0xFF0000FF\<close> (opaque red).
\<close>

definition solid_red :: "(unit, unit) jimp" where
  "solid_red =
     \<lparr>jimp_read = (\<lambda>src. Inr ()), jimp_resize = (\<lambda>img w h. img),
      jimp_getPixelColor = (\<lambda>img x y. 0xFF0000FF)\<rparr>"

text \<open>
  An image library with two sources: both decode to a 224 x 224 image of red pixels,
  opaque (\<open>0xFF0000FF\<close>) for \<open>True\<close> and fully transparent (\<open>0xFF000000\<close>) for \<open>False\<close>.
\<close>

definition two_alphas :: "(bool, bool) jimp" where
  "two_alphas =
     \<lparr>jimp_read = (\<lambda>src. Inr src), jimp_resize = (\<lambda>img w h. img),
      jimp_getPixelColor = (\<lambda>img x y. if img then 0xFF0000FF else 0xFF000000)\<rparr>"

text \<open>An image library that decodes nothing: every read fails with \<open>External 7\<close>.\<close>

definition undecodable :: "(unit, unit) jimp" where
  "undecodable =
     \<lparr>jimp_read = (\<lambda>src. Inl (External 7)), jimp_resize = (\<lambda>img w h. img),
      jimp_getPixelColor = (\<lambda>img x y. 0)\<rparr>"

text \<open>
  An environment in which everything works: the fetch gives three bytes, the engine
  accepts them, every run answers with the tensor \<open>out\<close> under the expected name, and the
  clock shows the number of external calls made so far. And one in which every fetch fails
  with the error \<open>External n\<close>.
\<close>

definition working :: "number list \<Rightarrow> env" where
  "working out =
     \<lparr>env_fetch = (\<lambda>history. Inr [1, 2, 3]),
      env_create = (\<lambda>history modelData. Inr 0),
      env_run = (\<lambda>history sess input. Inr [''resnetv17_dense0_fwd'' \<mapsto> TensorFloat32 out]),
      env_now = (\<lambda>history. real (length history))\<rparr>"

definition offline :: "nat \<Rightarrow> env" where
  "offline n =
     \<lparr>env_fetch = (\<lambda>history. Inl (External n)),
      env_create = (\<lambda>history modelData. Inr 0),
      env_run = (\<lambda>history sess input. Inr Map.empty),
      env_now = (\<lambda>history. real (length history))\<rparr>"

text \<open>A preprocessed image: any buffer of the right length.\<close>

definition blank :: "number list" where
  "blank = replicate 150528 (Fin 0)"

text \<open>
  An image library whose resize blends colour with alpha. Its images are numbered: 0 is
  opaque red, 1 is fully transparent red, 2 is fully transparent black. The source \<open>True\<close>
  decodes to image 0 and \<open>False\<close> to image 1; the resize keeps image 0 and turns the
  transparent image 1 into image 2.
\<close>

definition blending :: "(bool, nat) jimp" where
  "blending =
     \<lparr>jimp_read = (\<lambda>src. Inr (if src then 0 else 1)),
      jimp_resize = (\<lambda>img w h. if img = 1 then 2 else img),
      jimp_getPixelColor =
        (\<lambda>img x y. if img = 0 then 0xFF0000FF else if img = 1 then 0xFF000000 else 0)\<rparr>"

section \<open>Properties of rounding\<close>

lemma rhe_error: "\<bar>of_int (round_half_even y) - y\<bar> \<le> 1/2"
  unfolding round_half_even_def Let_def by (auto; linarith)

lemma rhe_of_int [simp]: "round_half_even (of_int n) = n"
  by (simp add: round_half_even_def)

lemma rhe_le: "y \<le> of_int n \<Longrightarrow> round_half_even y \<le> n"
proof -
  assume a: "y \<le> of_int n"
  have f: "\<lfloor>y\<rfloor> \<le> n" using a by (simp add: floor_le_iff)
  show ?thesis
  proof (cases "\<lfloor>y\<rfloor> = n")
    case True
    then have "y = of_int n" using a by linarith
    then show ?thesis by simp
  next
    case False
    with f have "\<lfloor>y\<rfloor> + 1 \<le> n" by simp
    then show ?thesis unfolding round_half_even_def Let_def using f by auto
  qed
qed

lemma rhe_ge: "of_int n \<le> y \<Longrightarrow> n \<le> round_half_even y"
proof -
  assume a: "of_int n \<le> y"
  have f: "n \<le> \<lfloor>y\<rfloor>" using a by (simp add: le_floor_iff)
  then show ?thesis unfolding round_half_even_def Let_def by auto
qed

lemma rhe_near: "\<bar>y - of_int n\<bar> < 1/2 \<Longrightarrow> round_half_even y = n"
proof -
  assume a: "\<bar>y - of_int n\<bar> < 1/2"
  have e: "\<bar>of_int (round_half_even y) - y\<bar> \<le> 1/2" by (rule rhe_error)
  have "\<bar>of_int (round_half_even y) - (of_int n :: real)\<bar> < 1" using a e by linarith
  then have "\<bar>(of_int (round_half_even y - n) :: real)\<bar> < 1" by simp
  then have "\<bar>round_half_even y - n\<bar> < 1" by linarith
  then show ?thesis by simp
qed


lemma two_powr_int: "0 \<le> k \<Longrightarrow> 2 powr (of_int k) = (of_int (2 ^ nat k) :: real)"
  by (simp add: powr_real_of_int)

lemma binade:
  assumes "x \<noteq> 0"
  shows "2 powr of_int \<lfloor>log 2 \<bar>x\<bar>\<rfloor> \<le> \<bar>x\<bar>" and "\<bar>x\<bar> < 2 powr of_int (\<lfloor>log 2 \<bar>x\<bar>\<rfloor> + 1)"
proof -
  have pos: "0 < \<bar>x\<bar>" using assms by simp
  have "of_int \<lfloor>log 2 \<bar>x\<bar>\<rfloor> \<le> log 2 \<bar>x\<bar>" by simp
  then have "2 powr of_int \<lfloor>log 2 \<bar>x\<bar>\<rfloor> \<le> 2 powr log 2 \<bar>x\<bar>" by (simp only: powr_le_cancel_iff) 
  then show "2 powr of_int \<lfloor>log 2 \<bar>x\<bar>\<rfloor> \<le> \<bar>x\<bar>" using pos by simp
  have "log 2 \<bar>x\<bar> < of_int (\<lfloor>log 2 \<bar>x\<bar>\<rfloor> + 1)" by linarith
  then have "2 powr log 2 \<bar>x\<bar> < 2 powr of_int (\<lfloor>log 2 \<bar>x\<bar>\<rfloor> + 1)" by (simp only: powr_less_cancel_iff)
  then show "\<bar>x\<bar> < 2 powr of_int (\<lfloor>log 2 \<bar>x\<bar>\<rfloor> + 1)" using pos by simp
qed

lemma floor_log_eq:
  assumes "2 powr of_int e \<le> \<bar>x\<bar>" and "\<bar>x\<bar> < 2 powr of_int (e + 1)"
  shows "\<lfloor>log 2 \<bar>x\<bar>\<rfloor> = e"
proof -
  have pos: "0 < \<bar>x\<bar>" using assms(1) powr_gt_zero [of 2 "of_int e"] by linarith
  have "of_int e \<le> log 2 \<bar>x\<bar>" using assms(1) pos by (simp add: le_log_iff)
  moreover have "log 2 \<bar>x\<bar> < of_int (e + 1)" using assms(2) pos by (simp add: log_less_iff)
  ultimately show ?thesis by linarith
qed

lemma floor_log_less:
  assumes "x \<noteq> 0" and "\<bar>x\<bar> < 2 powr of_int n"
  shows "\<lfloor>log 2 \<bar>x\<bar>\<rfloor> < n"
proof (rule ccontr)
  assume "\<not> \<lfloor>log 2 \<bar>x\<bar>\<rfloor> < n"
  then have "n \<le> \<lfloor>log 2 \<bar>x\<bar>\<rfloor>" by simp
  then have "(2::real) powr of_int n \<le> 2 powr of_int \<lfloor>log 2 \<bar>x\<bar>\<rfloor>" by simp
  with binade(1) [OF assms(1)] assms(2) show False by linarith
qed

lemma floor_log_ge:
  assumes "2 powr of_int n \<le> \<bar>x\<bar>"
  shows "n \<le> \<lfloor>log 2 \<bar>x\<bar>\<rfloor>"
proof (rule ccontr)
  assume "\<not> n \<le> \<lfloor>log 2 \<bar>x\<bar>\<rfloor>"
  then have "\<lfloor>log 2 \<bar>x\<bar>\<rfloor> + 1 \<le> n" by simp
  then have "(2::real) powr of_int (\<lfloor>log 2 \<bar>x\<bar>\<rfloor> + 1) \<le> 2 powr of_int n" by simp
  moreover have "x \<noteq> 0" using assms powr_gt_zero [of 2 "of_int n"] by auto
  ultimately show False using binade(2) [of x] assms by linarith
qed

lemma floor_log_mono:
  assumes "x \<noteq> 0" and "\<bar>x\<bar> \<le> \<bar>y\<bar>"
  shows "\<lfloor>log 2 \<bar>x\<bar>\<rfloor> \<le> \<lfloor>log 2 \<bar>y\<bar>\<rfloor>"
  using binade(1) [OF assms(1)] assms(2) by (intro floor_log_ge) linarith

lemma ulp_exponent_mono:
  assumes "x \<noteq> 0" and "\<bar>x\<bar> \<le> \<bar>y\<bar>"
  shows "ulp_exponent p emin x \<le> ulp_exponent p emin y"
  using floor_log_mono [OF assms] by (simp add: ulp_exponent_def)

lemma round_real_0 [simp]: "round_real p emin 0 = 0"
  by (simp add: round_real_def)

lemma round_real_error:
  assumes "x \<noteq> 0"
  shows "\<bar>round_real p emin x - x\<bar> \<le> 2 powr of_int (ulp_exponent p emin x - 1)"
proof -
  let ?k = "ulp_exponent p emin x"
  let ?s = "2 powr of_int ?k :: real"
  have s: "0 < ?s" by simp
  have "\<bar>of_int (round_half_even (x / ?s)) - x / ?s\<bar> \<le> 1/2" by (rule rhe_error)
  then have "\<bar>of_int (round_half_even (x / ?s)) - x / ?s\<bar> * ?s \<le> 1/2 * ?s"
    using s by (intro mult_right_mono) auto
  moreover have "\<bar>of_int (round_half_even (x / ?s)) - x / ?s\<bar> * ?s
      = \<bar>of_int (round_half_even (x / ?s)) * ?s - x\<bar>"
  proof -
    have "(of_int (round_half_even (x / ?s)) - x / ?s) * ?s
        = of_int (round_half_even (x / ?s)) * ?s - x"
      using s by (simp add: left_diff_distrib)
    then have "\<bar>of_int (round_half_even (x / ?s)) * ?s - x\<bar>
        = \<bar>of_int (round_half_even (x / ?s)) - x / ?s\<bar> * \<bar>?s\<bar>"
      by (simp only: abs_mult [symmetric])
    then show ?thesis using s by simp
  qed
  moreover have "1/2 * ?s = 2 powr of_int (?k - 1)"
    by (simp add: powr_diff)
  ultimately show ?thesis using assms by (simp add: round_real_def)
qed

lemma round_real_rel_error:
  assumes "1 \<le> p"
  shows "\<bar>round_real p emin x - x\<bar> \<le> 2 powr (- real p) * \<bar>x\<bar> + 2 powr of_int (emin - int p)"
proof (cases "x = 0")
  case True
  then show ?thesis by simp
next
  case False
  let ?e = "\<lfloor>log 2 \<bar>x\<bar>\<rfloor>"
  have err: "\<bar>round_real p emin x - x\<bar> \<le> 2 powr of_int (max ?e emin - int p)"
    using round_real_error [OF False, of p emin] by (simp add: ulp_exponent_def algebra_simps)
  show ?thesis
  proof (cases "emin \<le> ?e")
    case True
    have "2 powr of_int (?e - int p) = 2 powr (- real p) * 2 powr of_int ?e"
      by (simp add: powr_add [symmetric])
    also have "\<dots> \<le> 2 powr (- real p) * \<bar>x\<bar>"
      using binade(1) [OF False] by (intro mult_left_mono) auto
    finally have B: "2 powr of_int (?e - int p) \<le> 2 powr (- real p) * \<bar>x\<bar>" .
    have A: "\<bar>round_real p emin x - x\<bar> \<le> 2 powr of_int (?e - int p)"
      using err True by (simp add: max_def)
    have C: "(0::real) \<le> 2 powr of_int (emin - int p)" by simp
    from A B C show ?thesis by linarith
  next
    case False
    then have "max ?e emin = emin" by simp
    then have A: "\<bar>round_real p emin x - x\<bar> \<le> 2 powr of_int (emin - int p)"
      using err by simp
    have C: "0 \<le> 2 powr (- real p) * \<bar>x\<bar>" by simp
    from A C show ?thesis by linarith
  qed
qed

lemma round_real_le_grid:
  assumes "x \<le> of_int m * 2 powr of_int j" and "ulp_exponent p emin x \<le> j"
  shows "round_real p emin x \<le> of_int m * 2 powr of_int j"
proof (cases "x = 0")
  case True
  with assms(1) show ?thesis by simp
next
  case False
  let ?k = "ulp_exponent p emin x"
  let ?s = "2 powr of_int ?k :: real"
  have s: "0 < ?s" by simp
  have g: "of_int m * 2 powr of_int j = of_int (m * 2 ^ nat (j - ?k)) * ?s"
  proof -
    have "2 powr of_int j = 2 powr of_int (j - ?k) * ?s" by (simp add: powr_add [symmetric])
    also have "2 powr of_int (j - ?k) = (of_int (2 ^ nat (j - ?k)) :: real)"
      using assms(2) by (intro two_powr_int) simp
    finally show ?thesis by simp
  qed
  have "x / ?s \<le> of_int (m * 2 ^ nat (j - ?k))"
    using assms(1) s unfolding g by (simp add: divide_le_eq)
  then have "round_half_even (x / ?s) \<le> m * 2 ^ nat (j - ?k)" by (rule rhe_le)
  then have "(of_int (round_half_even (x / ?s)) :: real) \<le> of_int (m * 2 ^ nat (j - ?k))"
    by (simp only: of_int_le_iff)
  then have "of_int (round_half_even (x / ?s)) * ?s \<le> of_int (m * 2 ^ nat (j - ?k)) * ?s"
    using s by (intro mult_right_mono) auto
  then show ?thesis using False unfolding g by (simp add: round_real_def)
qed

lemma round_real_ge_grid:
  assumes "of_int m * 2 powr of_int j \<le> x" and "ulp_exponent p emin x \<le> j"
  shows "of_int m * 2 powr of_int j \<le> round_real p emin x"
proof (cases "x = 0")
  case True
  with assms(1) show ?thesis by simp
next
  case False
  let ?k = "ulp_exponent p emin x"
  let ?s = "2 powr of_int ?k :: real"
  have s: "0 < ?s" by simp
  have g: "of_int m * 2 powr of_int j = of_int (m * 2 ^ nat (j - ?k)) * ?s"
  proof -
    have "2 powr of_int j = 2 powr of_int (j - ?k) * ?s" by (simp add: powr_add [symmetric])
    also have "2 powr of_int (j - ?k) = (of_int (2 ^ nat (j - ?k)) :: real)"
      using assms(2) by (intro two_powr_int) simp
    finally show ?thesis by simp
  qed
  have "of_int (m * 2 ^ nat (j - ?k)) \<le> x / ?s"
    using assms(1) s unfolding g by (simp add: le_divide_eq)
  then have "m * 2 ^ nat (j - ?k) \<le> round_half_even (x / ?s)" by (rule rhe_ge)
  then have "(of_int (m * 2 ^ nat (j - ?k)) :: real) \<le> of_int (round_half_even (x / ?s))"
    by (simp only: of_int_le_iff)
  then have "of_int (m * 2 ^ nat (j - ?k)) * ?s \<le> of_int (round_half_even (x / ?s)) * ?s"
    using s by (intro mult_right_mono) auto
  then show ?thesis using False unfolding g by (simp add: round_real_def)
qed

lemma round_real_nonneg: "0 \<le> x \<Longrightarrow> 0 \<le> round_real p emin x"
  using round_real_ge_grid [of 0 "ulp_exponent p emin x" x p emin] by simp

lemma round_real_nonpos: "x \<le> 0 \<Longrightarrow> round_real p emin x \<le> 0"
  using round_real_le_grid [of x 0 "ulp_exponent p emin x" p emin] by simp

lemma ulp_exponent_grid:
  assumes "x = of_int m * 2 powr of_int j" and "\<bar>m\<bar> < 2 ^ p" and "emin - (int p - 1) \<le> j" and "x \<noteq> 0"
  shows "ulp_exponent p emin x \<le> j"
proof -
  have "\<bar>x\<bar> = of_int \<bar>m\<bar> * 2 powr of_int j" by (simp add: assms(1) abs_mult)
  also have "\<dots> < of_int (2 ^ p) * 2 powr of_int j"
  proof (rule mult_strict_right_mono)
    show "(of_int \<bar>m\<bar> :: real) < of_int (2 ^ p)" using assms(2) by (simp only: of_int_less_iff)
    show "(0::real) < 2 powr of_int j" by simp
  qed
  also have "\<dots> = 2 powr of_int (int p + j)"
    by (simp add: powr_add powr_realpow)
  finally have "\<lfloor>log 2 \<bar>x\<bar>\<rfloor> < int p + j" using assms(4) by (intro floor_log_less)
  then show ?thesis using assms(3) by (simp add: ulp_exponent_def)
qed

lemma round_real_exact:
  assumes "x = of_int m * 2 powr of_int j" and "\<bar>m\<bar> < 2 ^ p" and "emin - (int p - 1) \<le> j"
  shows "round_real p emin x = x"
proof (cases "x = 0")
  case True
  then show ?thesis by simp
next
  case False
  have k: "ulp_exponent p emin x \<le> j" using assms False by (rule ulp_exponent_grid)
  have "round_real p emin x \<le> of_int m * 2 powr of_int j"
    using k by (intro round_real_le_grid) (simp add: assms(1))
  moreover have "of_int m * 2 powr of_int j \<le> round_real p emin x"
    using k by (intro round_real_ge_grid) (simp add: assms(1))
  ultimately show ?thesis by (simp add: assms(1))
qed


lemma round_real_form:
  assumes "x \<noteq> 0"
  shows "round_real p emin x =
    of_int (round_half_even (x / 2 powr of_int (ulp_exponent p emin x)))
      * 2 powr of_int (ulp_exponent p emin x)"
  using assms by (simp add: round_real_def)

lemma round_real_le_rep:
  assumes "0 \<le> x" and "x \<le> a" and "round_real p emin a = a"
  shows "round_real p emin x \<le> a"
proof (cases "x = 0")
  case True
  with assms show ?thesis by simp
next
  case False
  with assms have a: "a \<noteq> 0" by auto
  have k: "ulp_exponent p emin x \<le> ulp_exponent p emin a"
    using False assms by (intro ulp_exponent_mono) auto
  have "round_real p emin x
      \<le> of_int (round_half_even (a / 2 powr of_int (ulp_exponent p emin a)))
          * 2 powr of_int (ulp_exponent p emin a)"
    using assms(2) k assms(3) round_real_form [OF a, of p emin]
    by (intro round_real_le_grid) simp_all
  then show ?thesis using assms(3) round_real_form [OF a, of p emin] by simp
qed

lemma round_real_ge_rep:
  assumes "0 \<le> a" and "a \<le> x" and "round_real p emin a = a" and "1 \<le> p"
  shows "a \<le> round_real p emin x"
proof (cases "a = 0")
  case True
  with assms show ?thesis by (simp add: round_real_nonneg)
next
  case False
  with assms have x: "x \<noteq> 0" and apos: "0 < a" and xpos: "0 < x" and a0: "a \<noteq> 0" by auto
  let ?ka = "ulp_exponent p emin a"
  let ?kx = "ulp_exponent p emin x"
  have k: "?ka \<le> ?kx" using False assms by (intro ulp_exponent_mono) auto
  show ?thesis
  proof (cases "?ka = ?kx")
    case True
    have "of_int (round_half_even (a / 2 powr of_int ?ka)) * 2 powr of_int ?ka
        \<le> round_real p emin x"
      using assms(2,3) True round_real_form [OF False, of p emin]
      by (intro round_real_ge_grid) simp_all
    then show ?thesis using assms(3) round_real_form [OF False, of p emin] by simp
  next
    case False
    with k have lt: "?ka < ?kx" by simp
    let ?ea = "\<lfloor>log 2 \<bar>a\<bar>\<rfloor>"
    let ?ex = "\<lfloor>log 2 \<bar>x\<bar>\<rfloor>"
    from lt have m: "max ?ea emin < max ?ex emin" unfolding ulp_exponent_def by linarith
    then have ex: "?ea + 1 \<le> ?ex" and em: "emin \<le> ?ex" by linarith+
    have kx: "?kx \<le> ?ex" using em assms(4) by (simp add: ulp_exponent_def)
    have "of_int 1 * 2 powr of_int ?ex \<le> round_real p emin x"
      using binade(1) [OF x] xpos kx by (intro round_real_ge_grid) simp_all
    then have g1: "2 powr of_int ?ex \<le> round_real p emin x" by simp
    have "\<bar>a\<bar> < 2 powr of_int (?ea + 1)" using a0 by (intro binade(2))
    then have g2: "a < 2 powr of_int (?ea + 1)" using apos by linarith
    have g3: "(2::real) powr of_int (?ea + 1) \<le> 2 powr of_int ?ex"
      using ex by simp
    from g1 g2 g3 show ?thesis by linarith
  qed
qed

lemma rhe_bound:
  assumes "x \<noteq> 0" and "1 \<le> p"
  shows "\<bar>round_half_even (x / 2 powr of_int (ulp_exponent p emin x))\<bar> \<le> 2 ^ p"
proof -
  let ?k = "ulp_exponent p emin x"
  let ?e = "\<lfloor>log 2 \<bar>x\<bar>\<rfloor>"
  have "\<bar>x\<bar> < 2 powr of_int (?e + 1)" by (rule binade(2) [OF assms(1)])
  also have "\<dots> \<le> 2 powr of_int (int p + ?k)"
    by (simp add: ulp_exponent_def)
  also have "\<dots> = of_int (2 ^ p) * 2 powr of_int ?k"
    by (simp add: powr_add powr_realpow)
  finally have b: "\<bar>x\<bar> / 2 powr of_int ?k < of_int (2 ^ p)"
    by (simp add: divide_less_eq)
  have "x / 2 powr of_int ?k \<le> of_int (2 ^ p)" using b by (simp add: abs_less_iff divide_simps) 
  then have u: "round_half_even (x / 2 powr of_int ?k) \<le> 2 ^ p" by (rule rhe_le)
  have "of_int (- (2 ^ p)) \<le> x / 2 powr of_int ?k" using b by (simp add: abs_less_iff divide_simps)
  then have l: "- (2 ^ p) \<le> round_half_even (x / 2 powr of_int ?k)" by (rule rhe_ge)
  from u l show ?thesis by simp
qed

lemma two_powr_succ: "(2::real) powr of_int (k + 1) = 2 * 2 powr of_int k"
  by (simp add: powr_add)

lemma round_real_idem:
  assumes "1 \<le> p"
  shows "round_real p emin (round_real p emin x) = round_real p emin x"
proof (cases "x = 0")
  case True
  then show ?thesis by simp
next
  case False
  let ?k = "ulp_exponent p emin x"
  let ?N = "round_half_even (x / 2 powr of_int ?k)"
  have f: "round_real p emin x = of_int ?N * 2 powr of_int ?k" by (rule round_real_form [OF False])
  have b: "\<bar>?N\<bar> \<le> 2 ^ p" using False assms by (rule rhe_bound)
  have kmin: "emin - (int p - 1) \<le> ?k" by (simp add: ulp_exponent_def)
  show ?thesis
  proof (cases "\<bar>?N\<bar> < 2 ^ p")
    case True
    show ?thesis using f True kmin by (rule round_real_exact)
  next
    case False
    with b have N: "\<bar>?N\<bar> = 2 ^ p" by simp
    obtain q where q: "p = Suc q" using assms by (cases p) auto
    define M :: int where "M = (if 0 \<le> ?N then 2 ^ q else - (2 ^ q))"
    have ev: "?N = M * 2" using N by (auto simp: M_def q abs_if split: if_splits)
    have half: "\<bar>M\<bar> < 2 ^ p" by (simp add: M_def q)
    have "round_real p emin x = of_int (M * 2) * 2 powr of_int ?k"
      using f ev by simp
    also have "\<dots> = of_int M * 2 powr of_int (?k + 1)"
      by (simp add: powr_add)
    finally have eq: "round_real p emin x = of_int M * 2 powr of_int (?k + 1)" .
    have kmin': "emin - (int p - 1) \<le> ?k + 1" using kmin by simp
    show ?thesis by (rule round_real_exact [OF eq half kmin'])
  qed
qed

lemma round_real_grid:
  "\<exists>N. round_real p emin x = of_int N * 2 powr of_int (emin - (int p - 1))"
proof (cases "x = 0")
  case True
  then have "round_real p emin x = of_int 0 * 2 powr of_int (emin - (int p - 1))" by simp
  then show ?thesis by blast
next
  case False
  let ?k = "ulp_exponent p emin x"
  let ?kmin = "emin - (int p - 1)"
  let ?N = "round_half_even (x / 2 powr of_int ?k)"
  have kmin: "?kmin \<le> ?k" by (simp add: ulp_exponent_def)
  have "(2::real) powr of_int ?k = 2 powr of_int (?k - ?kmin) * 2 powr of_int ?kmin"
    by (simp add: powr_add [symmetric])
  also have "2 powr of_int (?k - ?kmin) = (of_int (2 ^ nat (?k - ?kmin)) :: real)"
    using kmin by (intro two_powr_int) simp
  finally have sc: "(2::real) powr of_int ?k = of_int (2 ^ nat (?k - ?kmin)) * 2 powr of_int ?kmin" .
  have "round_real p emin x = of_int ?N * 2 powr of_int ?k"
    by (rule round_real_form [OF False])
  also have "\<dots> = of_int ?N * (of_int (2 ^ nat (?k - ?kmin)) * 2 powr of_int ?kmin)"
    by (simp only: sc)
  also have "\<dots> = of_int (?N * 2 ^ nat (?k - ?kmin)) * 2 powr of_int ?kmin"
    by (simp only: of_int_mult mult.assoc)
  finally show ?thesis by blast
qed

lemma round_real_pos:
  assumes "2 powr of_int (emin - (int p - 1)) \<le> x" and "1 \<le> p"
  shows "0 < round_real p emin x"
proof -
  let ?k = "ulp_exponent p emin x"
  have xpos: "0 < x" using assms(1) powr_gt_zero [of 2 "of_int (emin - (int p - 1))"] by linarith
  then have x: "x \<noteq> 0" by simp
  have "2 powr of_int ?k \<le> x"
  proof (cases "emin \<le> \<lfloor>log 2 \<bar>x\<bar>\<rfloor>")
    case True
    then have "?k \<le> \<lfloor>log 2 \<bar>x\<bar>\<rfloor>" using assms(2) by (simp add: ulp_exponent_def max_def)
    then have b2: "(2::real) powr of_int ?k \<le> 2 powr of_int \<lfloor>log 2 \<bar>x\<bar>\<rfloor>" by simp
    have b1: "2 powr of_int \<lfloor>log 2 \<bar>x\<bar>\<rfloor> \<le> \<bar>x\<bar>" by (rule binade(1) [OF x])
    have ax: "\<bar>x\<bar> = x" using xpos by simp
    from b1 b2 ax show ?thesis by linarith
  next
    case False
    then have "?k = emin - (int p - 1)" by (simp add: ulp_exponent_def max_def)
    with assms(1) show ?thesis by simp
  qed
  then have "of_int 1 * 2 powr of_int ?k \<le> round_real p emin x"
    by (intro round_real_ge_grid) simp_all
  then have g: "2 powr of_int ?k \<le> round_real p emin x" by simp
  have "(0::real) < 2 powr of_int ?k" by simp
  with g show ?thesis by linarith
qed

lemma to_format_finite:
  assumes "\<bar>x\<bar> \<le> 2 powr of_int emax" and "emin \<le> emax" and "1 \<le> p"
  shows "to_format p emin emax x = Fin (round_real p emin x)"
proof (cases "x = 0")
  case True
  then show ?thesis by (simp add: to_format_def)
next
  case False
  have "\<bar>x\<bar> < 2 powr of_int (emax + 1)"
  proof -
    have "(2::real) powr of_int emax < 2 powr of_int (emax + 1)" by simp
    with assms(1) show ?thesis by linarith
  qed
  then have "\<lfloor>log 2 \<bar>x\<bar>\<rfloor> < emax + 1" using False by (intro floor_log_less)
  then have k: "ulp_exponent p emin x \<le> emax" using assms(2,3) by (simp add: ulp_exponent_def)
  have "round_real p emin x \<le> of_int 1 * 2 powr of_int emax"
    using assms(1) k by (intro round_real_le_grid) simp_all
  then have u: "round_real p emin x \<le> 2 powr of_int emax" by simp
  have "of_int (- 1) * 2 powr of_int emax \<le> round_real p emin x"
    using assms(1) k by (intro round_real_ge_grid) simp_all
  then have l: "- (2 powr of_int emax) \<le> round_real p emin x" by simp
  have lt: "(2::real) powr of_int emax < 2 powr of_int (emax + 1)" by simp
  from u l lt have "\<bar>round_real p emin x\<bar> < 2 powr of_int (emax + 1)" by linarith
  then show ?thesis by (simp add: to_format_def)
qed

lemma to_format_eval:
  assumes "2 powr of_int e \<le> \<bar>x\<bar>" and "\<bar>x\<bar> < 2 powr of_int (e + 1)"
    and "emin \<le> e" and "e < emax" and "1 \<le> p"
    and "\<bar>x / 2 powr of_int (e - (int p - 1)) - of_int n\<bar> < 1/2"
  shows "to_format p emin emax x = Fin (of_int n * 2 powr of_int (e - (int p - 1)))"
proof -
  have x: "x \<noteq> 0" using assms(1) powr_gt_zero [of 2 "of_int e"] by auto
  have e: "\<lfloor>log 2 \<bar>x\<bar>\<rfloor> = e" using assms(1,2) by (rule floor_log_eq)
  then have k: "ulp_exponent p emin x = e - (int p - 1)"
    using assms(3) by (simp add: ulp_exponent_def)
  have "round_half_even (x / 2 powr of_int (e - (int p - 1))) = n"
    using assms(6) by (rule rhe_near)
  then have r: "round_real p emin x = of_int n * 2 powr of_int (e - (int p - 1))"
    using round_real_form [OF x, of p emin] k by simp
  have "(2::real) powr of_int (e + 1) \<le> 2 powr of_int emax" using assms(4) by simp
  with assms(2) have "\<bar>x\<bar> \<le> 2 powr of_int emax" by linarith
  then have "to_format p emin emax x = Fin (round_real p emin x)"
    using assms(3,4,5) by (intro to_format_finite) simp_all
  with r show ?thesis by simp
qed

lemma to_format_exact:
  assumes "x = of_int m * 2 powr of_int j" and "\<bar>m\<bar> < 2 ^ p" and "emin - (int p - 1) \<le> j"
    and "\<bar>x\<bar> \<le> 2 powr of_int emax" and "emin \<le> emax" and "1 \<le> p"
  shows "to_format p emin emax x = Fin x"
  using to_format_finite [OF assms(4,5,6)] round_real_exact [OF assms(1,2,3)] by simp

lemma double_eval:
  assumes "2 powr of_int e \<le> \<bar>x\<bar>" and "\<bar>x\<bar> < 2 powr of_int (e + 1)"
    and "- 1022 \<le> e" and "e < 1023"
    and "\<bar>x / 2 powr of_int (e - 52) - of_int n\<bar> < 1/2"
  shows "double x = Fin (of_int n * 2 powr of_int (e - 52))"
  unfolding double_def
  using to_format_eval [of e x "- 1022" 1023 53 n] assms by simp

lemma float32_eval:
  assumes "2 powr of_int e \<le> \<bar>x\<bar>" and "\<bar>x\<bar> < 2 powr of_int (e + 1)"
    and "- 126 \<le> e" and "e < 127"
    and "\<bar>x / 2 powr of_int (e - 23) - of_int n\<bar> < 1/2"
  shows "float32 x = Fin (of_int n * 2 powr of_int (e - 23))"
  unfolding float32_def
  using to_format_eval [of e x "- 126" 127 24 n] assms by simp

text \<open>The two formats at their parameters.\<close>

lemma double_finite:
  assumes "\<bar>x\<bar> \<le> 2 powr 1023"
  shows "double x = Fin (round_real 53 (- 1022) x)"
  unfolding double_def using assms by (intro to_format_finite) simp_all

lemma double_exact:
  assumes "x = of_int m * 2 powr of_int j" and "\<bar>m\<bar> < 2 ^ 53" and "- 1074 \<le> j"
    and "\<bar>x\<bar> \<le> 2 powr 1023"
  shows "double x = Fin x"
  unfolding double_def using assms by (intro to_format_exact [where m = m and j = j]) simp_all

lemma double_of_int: "\<bar>m\<bar> < 2 ^ 53 \<Longrightarrow> double (of_int m) = Fin (of_int m)"
proof -
  assume m: "\<bar>m\<bar> < 2 ^ 53"
  have "(of_int \<bar>m\<bar> :: real) < of_int (2 ^ 53)" using m by (simp only: of_int_less_iff)
  then have "\<bar>(of_int m :: real)\<bar> \<le> 2 ^ 53" by simp
  also have "(2::real) ^ 53 \<le> 2 powr 1023"
    using powr_mono [of "53::real" 1023 2] powr_realpow [of 2 53] by simp
  finally show ?thesis using m by (intro double_exact [where m = m and j = 0]) simp_all
qed

lemma double_simps [simp]:
  "double 0 = Fin 0" "double 1 = Fin 1" "double 2 = Fin 2" "double (1/2) = Fin (1/2)"
proof -
  show "double 0 = Fin 0" using double_of_int [of 0] by simp
  show "double 1 = Fin 1" using double_of_int [of 1] by simp
  show "double 2 = Fin 2" using double_of_int [of 2] by simp
  have "\<bar>1/2::real\<bar> \<le> 2 powr 1023" using powr_mono [of "0::real" 1023 2] by simp
  then show "double (1/2) = Fin (1/2)"
    by (intro double_exact [where m = 1 and j = "- 1"]) (simp_all add: powr_neg_numeral powr_minus)
qed

lemma double_error:
  "\<bar>round_real 53 (- 1022) x - x\<bar> \<le> 2 powr (- 53) * \<bar>x\<bar> + 2 powr (- 1075)"
  using round_real_rel_error [of 53 "- 1022" x] by simp

lemma double_sign:
  shows "x \<le> 0 \<Longrightarrow> double x = NegInf \<or> (\<exists>d. double x = Fin d \<and> d \<le> 0)"
    and "0 \<le> x \<Longrightarrow> double x = PosInf \<or> (\<exists>d. double x = Fin d \<and> 0 \<le> d)"
  using round_real_nonpos [of x 53 "- 1022"] round_real_nonneg [of x 53 "- 1022"]
  by (auto simp: double_def to_format_def Let_def)

section \<open>Properties of the preprocessing\<close>

lemma forEach_snoc: "forEach f (xs @ [x]) s = f x (length xs) (forEach f xs s)"
  by (simp add: forEach_def enumerate_append_eq)

lemma forEach_Nil: "forEach f [] s = s"
  by (simp add: forEach_def)

lemma block_index:
  fixes sz :: nat
  assumes "base + k * sz \<le> i" and "i < base + (k + 1) * sz"
  shows "(i - base) div sz = k" and "(i - base) mod sz = i - (base + k * sz)"
proof -
  have lo: "sz * k \<le> i - base" using assms(1) by (simp add: mult.commute)
  have hi: "i - base < sz * Suc k" using assms by (simp add: mult.commute)
  show d: "(i - base) div sz = k" using lo hi by (rule div_nat_eqI)
  have "(i - base) mod sz = (i - base) - (i - base) div sz * sz"
    by (simp add: minus_div_mult_eq_mod)
  then show "(i - base) mod sz = i - (base + k * sz)" by (simp add: d)
qed

lemma length_forEach:
  fixes f :: "'a \<Rightarrow> nat \<Rightarrow> 'b list \<Rightarrow> 'b list"
  assumes "\<And>x k res. length (f x k res) = length res"
  shows "length (forEach f xs res) = length res"
  by (induction xs rule: rev_induct) (simp_all add: forEach_Nil forEach_snoc assms)

lemma forEach_blocks:
  fixes f :: "'a \<Rightarrow> nat \<Rightarrow> 'b list \<Rightarrow> 'b list"
  assumes len: "\<And>x k res. length (f x k res) = length res"
    and blk: "\<And>k res i. k < length xs \<Longrightarrow> i < length res \<Longrightarrow>
              f (xs ! k) k res ! i =
                (if base + k * sz \<le> i \<and> i < base + (k + 1) * sz
                 then g k (i - (base + k * sz)) else res ! i)"
    and i: "i < length res"
  shows "forEach f xs res ! i =
           (if base \<le> i \<and> i < base + length xs * sz
            then g ((i - base) div sz) ((i - base) mod sz) else res ! i)"
  using blk
proof (induction xs rule: rev_induct)
  case Nil
  then show ?case by (auto simp add: forEach_Nil)
next
  case (snoc x xs)
  let ?n = "length xs"
  let ?R = "forEach f xs res"
  have blk': "f (xs ! k) k r ! j =
              (if base + k * sz \<le> j \<and> j < base + (k + 1) * sz
               then g k (j - (base + k * sz)) else r ! j)"
    if "k < length xs" "j < length r" for k r j
    using snoc.prems [where k = k and res = r and i = j] that by (simp add: nth_append)
  have IH: "?R ! i = (if base \<le> i \<and> i < base + ?n * sz
          then g ((i - base) div sz) ((i - base) mod sz) else res ! i)"
    using snoc.IH blk' by blast
  have last: "f x ?n ?R ! i =
              (if base + ?n * sz \<le> i \<and> i < base + (?n + 1) * sz
               then g ?n (i - (base + ?n * sz)) else ?R ! i)"
    using snoc.prems [where k = ?n and res = ?R and i = i] i
    by (simp add: length_forEach [of f, OF len])
  show ?case
  proof (cases "base + ?n * sz \<le> i \<and> i < base + (?n + 1) * sz")
    case True
    then have "(i - base) div sz = ?n" "(i - base) mod sz = i - (base + ?n * sz)"
      using block_index [of base ?n sz i] by auto
    with True show ?thesis by (simp add: forEach_snoc last)
  next
    case False
    then show ?thesis by (auto simp add: forEach_snoc last IH)
  qed
qed

lemma length_Array_from: "length (Array_from n f) = n"
  by (simp add: Array_from_def)

lemma nth_Array_from: "i < n \<Longrightarrow> Array_from n f ! i = f i"
  by (simp add: Array_from_def)

text \<open>Writing one row.\<close>

lemma length_write_row:
  "length (forEach (\<lambda>v w res. res[b + w := F v]) row res) = length res"
  by (rule length_forEach) simp

lemma write_row:
  fixes row :: "'b list" and res :: "'c list"
  assumes i: "i < length res"
  shows "forEach (\<lambda>v w res. res[b + w := F v]) row res ! i =
           (if b \<le> i \<and> i < b + length row then F (row ! (i - b)) else res ! i)"
proof -
  have len: "length ((\<lambda>v w res. res[b + w := F v]) x k (r::'c list)) = length r" for x k r
    by simp
  have blk: "(\<lambda>v w res. res[b + w := F v]) (row ! k) k r ! j =
          (if b + k * 1 \<le> j \<and> j < b + (k + 1) * 1 then (\<lambda>k j. F (row ! k)) k (j - (b + k * 1)) else r ! j)"
    if "k < length row" "j < length r" for k r j
    using that by (auto simp: nth_list_update)
  show ?thesis
    using forEach_blocks [where f = "\<lambda>v w res. res[b + w := F v]" and xs = row and base = b
        and sz = 1 and g = "\<lambda>k j. F (row ! k)" and res = res and i = i, OF len blk i]
    by simp
qed

text \<open>Writing the rows of one channel, each of length \<open>W\<close>.\<close>

lemma length_write_channel:
  "length (forEach (\<lambda>row h. forEach (\<lambda>v w res. res[b h + w := F v]) row) rows res) = length res"
  by (rule length_forEach) (rule length_write_row)

lemma write_channel:
  fixes rows :: "'b list list" and res :: "'c list"
  assumes W: "\<And>k. k < length rows \<Longrightarrow> length (rows ! k) = W"
    and i: "i < length res"
  shows "forEach (\<lambda>row h. forEach (\<lambda>v w res. res[b + h * W + w := F v]) row) rows res ! i =
           (if b \<le> i \<and> i < b + length rows * W
            then F (rows ! ((i - b) div W) ! ((i - b) mod W)) else res ! i)"
proof -
  let ?f = "\<lambda>row h. forEach (\<lambda>v w res. res[b + h * W + w := F v]) row"
  have len: "length (?f x k r) = length r" for x k r
    by (rule length_write_row)
  have blk: "?f (rows ! k) k r ! j =
          (if b + k * W \<le> j \<and> j < b + (k + 1) * W
           then (\<lambda>k j. F (rows ! k ! j)) k (j - (b + k * W)) else r ! j)"
    if "k < length rows" "j < length r" for k r j
    using write_row [where i = j and res = r and b = "b + k * W" and row = "rows ! k" and F = F]
      that W [of k] by simp
  show ?thesis
    using forEach_blocks [where f = ?f and xs = rows and base = b
        and sz = W and g = "\<lambda>k j. F (rows ! k ! j)" and res = res and i = i, OF len blk i]
    by simp
qed

text \<open>Writing all channels, each of \<open>H\<close> rows of length \<open>W\<close>.\<close>

lemma length_write_channels:
  "length (forEach (\<lambda>rows c. forEach (\<lambda>row h.
            forEach (\<lambda>v w res. res[b c h + w := F v]) row) rows) chans res) = length res"
  by (rule length_forEach) (rule length_write_channel)

lemma write_channels:
  fixes chans :: "'b list list list" and res :: "'c list"
  assumes H: "\<And>c. c < length chans \<Longrightarrow> length (chans ! c) = H"
    and W: "\<And>c h. c < length chans \<Longrightarrow> h < H \<Longrightarrow> length (chans ! c ! h) = W"
    and i: "i < length res"
  shows "forEach (\<lambda>rows c. forEach (\<lambda>row h.
            forEach (\<lambda>v w res. res[c * H * W + h * W + w := F v]) row) rows) chans res ! i =
           (if i < length chans * (H * W)
            then F (chans ! (i div (H * W)) ! ((i mod (H * W)) div W) ! ((i mod (H * W)) mod W))
            else res ! i)"
proof -
  let ?f = "\<lambda>rows c. forEach (\<lambda>row h.
            forEach (\<lambda>v w res. res[c * H * W + h * W + w := F v]) row) rows"
  have len: "length (?f x k r) = length r" for x k r
    by (rule length_write_channel)
  have blk: "?f (chans ! k) k r ! j =
          (if 0 + k * (H * W) \<le> j \<and> j < 0 + (k + 1) * (H * W)
           then (\<lambda>k j. F (chans ! k ! (j div W) ! (j mod W))) k (j - (0 + k * (H * W))) else r ! j)"
    if "k < length chans" "j < length r" for k r j
    using write_channel [where rows = "chans ! k" and W = W and i = j and res = r
        and b = "k * H * W" and F = F] that H [of k] W [of k]
    by (simp add: mult.assoc)
  show ?thesis
    using forEach_blocks [where f = ?f and xs = chans and base = 0
        and sz = "H * W" and g = "\<lambda>k j. F (chans ! k ! (j div W) ! (j mod W))" and res = res and i = i,
        OF len blk i]
    by simp
qed

lemma chw_index:
  fixes H W :: nat
  assumes "h < H" "w < W"
  shows "(c * H * W + h * W + w) div (H * W) = c"
    and "((c * H * W + h * W + w) mod (H * W)) div W = h"
    and "((c * H * W + h * W + w) mod (H * W)) mod W = w"
    and "c < C \<Longrightarrow> c * H * W + h * W + w < C * (H * W)"
proof -
  have hw: "h * W + w < H * W"
  proof -
    have "h * W + w < h * W + W" using assms by simp
    also have "\<dots> = Suc h * W" by simp
    also have "\<dots> \<le> H * W" using assms(1) by (intro mult_le_mono1) simp
    finally show ?thesis .
  qed
  have pos: "H * W \<noteq> 0" using hw by (cases "H * W") auto
  have e: "c * H * W + h * W + w = (h * W + w) + c * (H * W)" by (simp add: mult.assoc)
  show "(c * H * W + h * W + w) div (H * W) = c"
    unfolding e using hw pos by simp
  have m: "(c * H * W + h * W + w) mod (H * W) = h * W + w"
    unfolding e using hw by simp
  show "((c * H * W + h * W + w) mod (H * W)) div W = h"
    unfolding m using assms(2) by simp
  show "((c * H * W + h * W + w) mod (H * W)) mod W = w"
    unfolding m using assms(2) by simp
  show "c * H * W + h * W + w < C * (H * W)" if "c < C"
  proof -
    have "c * H * W + h * W + w < c * (H * W) + H * W" using hw by (simp add: mult.assoc)
    also have "\<dots> = Suc c * (H * W)" by simp
    also have "\<dots> \<le> C * (H * W)" using that by (intro mult_le_mono1) simp
    finally show ?thesis .
  qed
qed


lemma length_processPixels: "length (processPixels p) = channels * height * width"
  unfolding processPixels_def Let_def by (simp add: length_write_channels)

lemma processPixels_eq:
  "processPixels p =
     forEach (\<lambda>rows c. forEach (\<lambda>row h.
        forEach (\<lambda>v w res. res[c * height * width + h * width + w := Float32Array_store v]) row) rows)
       (Array_from channels (\<lambda>c. Array_from height (\<lambda>h. Array_from width (\<lambda>w. pixel_value p c h w))))
       (replicate (channels * height * width) (Fin 0))"
  unfolding processPixels_def pixel_value_def Let_def ..

lemma nth_processPixels:
  assumes "c < channels" "h < height" "w < width"
  shows "processPixels p ! (c * height * width + h * width + w)
           = Float32Array_store (pixel_value p c h w)"
proof -
  let ?pd = "Array_from channels (\<lambda>c. Array_from height (\<lambda>h. Array_from width (\<lambda>w. pixel_value p c h w)))"
  let ?res = "replicate (channels * height * width) (Fin 0)"
  let ?i = "c * height * width + h * width + w"
  have i: "?i < channels * (height * width)"
    using chw_index(4) [of h height w width c channels] assms by simp
  then have i': "?i < length ?res" by (simp add: mult.assoc)
  have "processPixels p ! ?i =
          Float32Array_store (?pd ! (?i div (height * width)) ! ((?i mod (height * width)) div width)
            ! ((?i mod (height * width)) mod width))"
    unfolding processPixels_eq
    using write_channels [where chans = ?pd and H = height and W = width and i = ?i and res = ?res
        and F = Float32Array_store, OF _ _ i'] i
    by (simp add: length_Array_from nth_Array_from)
  also have "\<dots> = Float32Array_store (?pd ! c ! h ! w)"
    using chw_index(1-3) [of h height w width c] assms by simp
  also have "\<dots> = Float32Array_store (pixel_value p c h w)"
    using assms by (simp add: nth_Array_from)
  finally show ?thesis .
qed

lemma pixel_value_channel:
  assumes "c < 3"
  shows "pixel_value p c h w =
    num_div
      (num_sub (num_div (Fin (real (unat (channel_of c (intToRGBA (p w h)))))) (Fin 255))
         ([double 0.485, double 0.456, double 0.406] ! c))
      ([double 0.229, double 0.224, double 0.225] ! c)"
proof -
  from assms consider "c = 0" | "c = 1" | "c = 2" by linarith
  then show ?thesis
    by cases (simp_all add: pixel_value_def Let_def normalize_def num_at_def mean_def std_def
        channel_of_def)
qed

text \<open>
  C1 (amended). Whenever \<open>Jimp.read\<close> decodes the input, \<open>preprocessImage\<close> returns a
  buffer of length 150528 whose element at index \<open>c*224*224 + h*224 + w\<close> is the value
  \<open>(p/255 - mean[c]) / std[c]\<close> as the program computes it: the two divisions and the
  subtraction each rounded to the nearest double, \<open>mean[c]\<close> and \<open>std[c]\<close> being the
  doubles nearest to the decimal literals, and the result rounded to the nearest binary32
  value by the store into the \<open>Float32Array\<close>. Here \<open>p\<close> is the 8-bit value of channel
  \<open>c\<close> (0 = R, 1 = G, 2 = B) of the pixel at column \<open>w\<close>, row \<open>h\<close> of the resized image.
\<close>

theorem preprocess_layout:
  assumes "jimp_read J imageInput = Inr decoded"
  shows "\<exists>buf. preprocessImage J imageInput = Inr buf \<and> length buf = 150528 \<and>
     (\<forall>c<3. \<forall>h<224. \<forall>w<224.
        buf ! (c * 224 * 224 + h * 224 + w) =
          Float32Array_store
            (num_div
               (num_sub
                  (num_div
                     (Fin (real (unat (channel_of c
                        (intToRGBA (jimp_getPixelColor J (jimp_resize J decoded 224 224) w h))))))
                     (Fin 255))
                  ([double 0.485, double 0.456, double 0.406] ! c))
               ([double 0.229, double 0.224, double 0.225] ! c)))"
proof -
  let ?p = "jimp_getPixelColor J (jimp_resize J decoded 224 224)"
  have r: "preprocessImage J imageInput = Inr (processPixels ?p)"
    by (simp add: preprocessImage_def assms)
  have l: "length (processPixels ?p) = 150528"
    by (simp add: length_processPixels channels_def height_def width_def)
  have n: "processPixels ?p ! (c * 224 * 224 + h * 224 + w) =
          Float32Array_store
            (num_div
               (num_sub (num_div (Fin (real (unat (channel_of c (intToRGBA (?p w h)))))) (Fin 255))
                  ([double 0.485, double 0.456, double 0.406] ! c))
               ([double 0.229, double 0.224, double 0.225] ! c))"
    if "c < 3" "h < 224" "w < 224" for c h w
    using nth_processPixels [of c h w ?p] that pixel_value_channel [of c ?p h w]
    by (simp add: channels_def height_def width_def)
  from r l n show ?thesis by blast
qed

text \<open>The roundings of the normalisation of a red and of a black pixel.\<close>

lemma num_div_Fin: "b \<noteq> 0 \<Longrightarrow> num_div (Fin a) (Fin b) = double (a / b)"
  by simp

lemma double_0485: "double (0.485) = Fin (4368491638549381 / 9007199254740992)"
  using double_eval [of "- 2" "0.485" 8736983277098762]
  by (simp add: powr_neg_numeral powr_minus)

lemma double_0456: "double (0.456) = Fin (8214565720323785 / 18014398509481984)"
  using double_eval [of "- 2" "0.456" 8214565720323785]
  by (simp add: powr_neg_numeral powr_minus)

lemma double_0406: "double (0.406) = Fin (3656922897424843 / 9007199254740992)"
  using double_eval [of "- 2" "0.406" 7313845794849686]
  by (simp add: powr_neg_numeral powr_minus)

lemma double_0229: "double (0.229) = Fin (8250594517342749 / 36028797018963968)"
  using double_eval [of "- 3" "0.229" 8250594517342749]
  by (simp add: powr_neg_numeral powr_minus)

lemma double_0224: "double (0.224) = Fin (8070450532247929 / 36028797018963968)"
  using double_eval [of "- 3" "0.224" 8070450532247929]
  by (simp add: powr_neg_numeral powr_minus)

lemma double_0225: "double (0.225) = Fin (8106479329266893 / 36028797018963968)"
  using double_eval [of "- 3" "0.225" 8106479329266893]
  by (simp add: powr_neg_numeral powr_minus)

lemma red_channel0_sub: "double (4638707616191611 / 9007199254740992) = Fin (4638707616191611 / 9007199254740992)"
  using double_eval [of "- 1" "4638707616191611 / 9007199254740992" 4638707616191611]
  by (simp add: powr_neg_numeral powr_minus)

lemma red_channel0_div: "double (18554830464766444 / 8250594517342749) = Fin (5064091284051977 / 2251799813685248)"
  using double_eval [of 1 "18554830464766444 / 8250594517342749" 5064091284051977]
  by (simp add: powr_neg_numeral powr_minus)

lemma red_channel0_f32: "float32 (5064091284051977 / 2251799813685248) = Fin (9432605 / 4194304)"
  using float32_eval [of 1 "5064091284051977 / 2251799813685248" 9432605]
  by (simp add: powr_neg_numeral powr_minus)

lemma red_channel0:
  "Float32Array_store
     (num_div (num_sub (num_div (Fin 255) (Fin 255)) (double 0.485)) (double 0.229))
   = Fin (9432605 / 4194304)"
proof -
  have a: "num_div (Fin 255) (Fin 255) = Fin 1" by simp
  have q1: "(1 + - (4368491638549381 / 9007199254740992) :: real) = 4638707616191611 / 9007199254740992" by simp
  have b: "num_sub (Fin 1) (Fin (4368491638549381 / 9007199254740992)) = Fin (4638707616191611 / 9007199254740992)"
    unfolding num_sub_def num_neg.simps num_add.simps q1 by (rule red_channel0_sub)
  have q2: "((4638707616191611 / 9007199254740992) / (8250594517342749 / 36028797018963968) :: real) = 18554830464766444 / 8250594517342749" by simp
  have s0: "(8250594517342749 / 36028797018963968 :: real) \<noteq> 0" by simp
  have "num_div (Fin (4638707616191611 / 9007199254740992)) (Fin (8250594517342749 / 36028797018963968)) = double ((4638707616191611 / 9007199254740992) / (8250594517342749 / 36028797018963968))"
    using s0 by (rule num_div_Fin)
  also have "\<dots> = Fin (5064091284051977 / 2251799813685248)" unfolding q2 by (rule red_channel0_div)
  finally have c: "num_div (Fin (4638707616191611 / 9007199254740992)) (Fin (8250594517342749 / 36028797018963968)) = Fin (5064091284051977 / 2251799813685248)" .
  have d: "Float32Array_store (Fin (5064091284051977 / 2251799813685248)) = Fin (9432605 / 4194304)"
    unfolding Float32Array_store.simps by (rule red_channel0_f32)
  show ?thesis unfolding a double_0485 double_0229 b c d ..
qed

lemma red_channel0_double:
  "num_div (num_sub (num_div (Fin 255) (Fin 255)) (double 0.485)) (double 0.229)
   = Fin (5064091284051977 / 2251799813685248)"
proof -
  have a: "num_div (Fin 255) (Fin 255) = Fin 1" by simp
  have q1: "(1 + - (4368491638549381 / 9007199254740992) :: real) = 4638707616191611 / 9007199254740992" by simp
  have b: "num_sub (Fin 1) (Fin (4368491638549381 / 9007199254740992)) = Fin (4638707616191611 / 9007199254740992)"
    unfolding num_sub_def num_neg.simps num_add.simps q1 by (rule red_channel0_sub)
  have q2: "((4638707616191611 / 9007199254740992) / (8250594517342749 / 36028797018963968) :: real) = 18554830464766444 / 8250594517342749" by simp
  have s0: "(8250594517342749 / 36028797018963968 :: real) \<noteq> 0" by simp
  have "num_div (Fin (4638707616191611 / 9007199254740992)) (Fin (8250594517342749 / 36028797018963968)) = double ((4638707616191611 / 9007199254740992) / (8250594517342749 / 36028797018963968))"
    using s0 by (rule num_div_Fin)
  also have "\<dots> = Fin (5064091284051977 / 2251799813685248)" unfolding q2 by (rule red_channel0_div)
  finally have c: "num_div (Fin (4638707616191611 / 9007199254740992)) (Fin (8250594517342749 / 36028797018963968)) = Fin (5064091284051977 / 2251799813685248)" .
  show ?thesis unfolding a double_0485 double_0229 b c ..
qed

lemma red_channel1_sub: "double (- (8214565720323785 / 18014398509481984)) = Fin (- (8214565720323785 / 18014398509481984))"
  using double_eval [of "- 2" "- (8214565720323785 / 18014398509481984)" "- 8214565720323785"]
  by (simp add: powr_neg_numeral powr_minus)

lemma red_channel1_div: "double (- (16429131440647570 / 8070450532247929)) = Fin (- (2292010524643913 / 1125899906842624))"
  using double_eval [of 1 "- (16429131440647570 / 8070450532247929)" "- 4584021049287826"]
  by (simp add: powr_neg_numeral powr_minus)

lemma red_channel1_f32: "float32 (- (2292010524643913 / 1125899906842624)) = Fin (- (8538405 / 4194304))"
  using float32_eval [of 1 "- (2292010524643913 / 1125899906842624)" "- 8538405"]
  by (simp add: powr_neg_numeral powr_minus)

lemma red_channel1:
  "Float32Array_store
     (num_div (num_sub (num_div (Fin 0) (Fin 255)) (double 0.456)) (double 0.224))
   = Fin (- (8538405 / 4194304))"
proof -
  have a: "num_div (Fin 0) (Fin 255) = Fin 0" by simp
  have q1: "(0 + - (8214565720323785 / 18014398509481984) :: real) = - (8214565720323785 / 18014398509481984)" by simp
  have b: "num_sub (Fin 0) (Fin (8214565720323785 / 18014398509481984)) = Fin (- (8214565720323785 / 18014398509481984))"
    unfolding num_sub_def num_neg.simps num_add.simps q1 by (rule red_channel1_sub)
  have q2: "((- (8214565720323785 / 18014398509481984)) / (8070450532247929 / 36028797018963968) :: real) = - (16429131440647570 / 8070450532247929)" by simp
  have s0: "(8070450532247929 / 36028797018963968 :: real) \<noteq> 0" by simp
  have "num_div (Fin (- (8214565720323785 / 18014398509481984))) (Fin (8070450532247929 / 36028797018963968)) = double ((- (8214565720323785 / 18014398509481984)) / (8070450532247929 / 36028797018963968))"
    using s0 by (rule num_div_Fin)
  also have "\<dots> = Fin (- (2292010524643913 / 1125899906842624))" unfolding q2 by (rule red_channel1_div)
  finally have c: "num_div (Fin (- (8214565720323785 / 18014398509481984))) (Fin (8070450532247929 / 36028797018963968)) = Fin (- (2292010524643913 / 1125899906842624))" .
  have d: "Float32Array_store (Fin (- (2292010524643913 / 1125899906842624))) = Fin (- (8538405 / 4194304))"
    unfolding Float32Array_store.simps by (rule red_channel1_f32)
  show ?thesis unfolding a double_0456 double_0224 b c d ..
qed

lemma red_channel1_double:
  "num_div (num_sub (num_div (Fin 0) (Fin 255)) (double 0.456)) (double 0.224)
   = Fin (- (2292010524643913 / 1125899906842624))"
proof -
  have a: "num_div (Fin 0) (Fin 255) = Fin 0" by simp
  have q1: "(0 + - (8214565720323785 / 18014398509481984) :: real) = - (8214565720323785 / 18014398509481984)" by simp
  have b: "num_sub (Fin 0) (Fin (8214565720323785 / 18014398509481984)) = Fin (- (8214565720323785 / 18014398509481984))"
    unfolding num_sub_def num_neg.simps num_add.simps q1 by (rule red_channel1_sub)
  have q2: "((- (8214565720323785 / 18014398509481984)) / (8070450532247929 / 36028797018963968) :: real) = - (16429131440647570 / 8070450532247929)" by simp
  have s0: "(8070450532247929 / 36028797018963968 :: real) \<noteq> 0" by simp
  have "num_div (Fin (- (8214565720323785 / 18014398509481984))) (Fin (8070450532247929 / 36028797018963968)) = double ((- (8214565720323785 / 18014398509481984)) / (8070450532247929 / 36028797018963968))"
    using s0 by (rule num_div_Fin)
  also have "\<dots> = Fin (- (2292010524643913 / 1125899906842624))" unfolding q2 by (rule red_channel1_div)
  finally have c: "num_div (Fin (- (8214565720323785 / 18014398509481984))) (Fin (8070450532247929 / 36028797018963968)) = Fin (- (2292010524643913 / 1125899906842624))" .
  show ?thesis unfolding a double_0456 double_0224 b c ..
qed

lemma red_channel2_sub: "double (- (3656922897424843 / 9007199254740992)) = Fin (- (3656922897424843 / 9007199254740992))"
  using double_eval [of "- 2" "- (3656922897424843 / 9007199254740992)" "- 7313845794849686"]
  by (simp add: powr_neg_numeral powr_minus)

lemma red_channel2_div: "double (- (14627691589699372 / 8106479329266893)) = Fin (- (4063247663805381 / 2251799813685248))"
  using double_eval [of 0 "- (14627691589699372 / 8106479329266893)" "- 8126495327610762"]
  by (simp add: powr_neg_numeral powr_minus)

lemma red_channel2_f32: "float32 (- (4063247663805381 / 2251799813685248)) = Fin (- (15136777 / 8388608))"
  using float32_eval [of 0 "- (4063247663805381 / 2251799813685248)" "- 15136777"]
  by (simp add: powr_neg_numeral powr_minus)

lemma red_channel2:
  "Float32Array_store
     (num_div (num_sub (num_div (Fin 0) (Fin 255)) (double 0.406)) (double 0.225))
   = Fin (- (15136777 / 8388608))"
proof -
  have a: "num_div (Fin 0) (Fin 255) = Fin 0" by simp
  have q1: "(0 + - (3656922897424843 / 9007199254740992) :: real) = - (3656922897424843 / 9007199254740992)" by simp
  have b: "num_sub (Fin 0) (Fin (3656922897424843 / 9007199254740992)) = Fin (- (3656922897424843 / 9007199254740992))"
    unfolding num_sub_def num_neg.simps num_add.simps q1 by (rule red_channel2_sub)
  have q2: "((- (3656922897424843 / 9007199254740992)) / (8106479329266893 / 36028797018963968) :: real) = - (14627691589699372 / 8106479329266893)" by simp
  have s0: "(8106479329266893 / 36028797018963968 :: real) \<noteq> 0" by simp
  have "num_div (Fin (- (3656922897424843 / 9007199254740992))) (Fin (8106479329266893 / 36028797018963968)) = double ((- (3656922897424843 / 9007199254740992)) / (8106479329266893 / 36028797018963968))"
    using s0 by (rule num_div_Fin)
  also have "\<dots> = Fin (- (4063247663805381 / 2251799813685248))" unfolding q2 by (rule red_channel2_div)
  finally have c: "num_div (Fin (- (3656922897424843 / 9007199254740992))) (Fin (8106479329266893 / 36028797018963968)) = Fin (- (4063247663805381 / 2251799813685248))" .
  have d: "Float32Array_store (Fin (- (4063247663805381 / 2251799813685248))) = Fin (- (15136777 / 8388608))"
    unfolding Float32Array_store.simps by (rule red_channel2_f32)
  show ?thesis unfolding a double_0406 double_0225 b c d ..
qed

lemma red_channel2_double:
  "num_div (num_sub (num_div (Fin 0) (Fin 255)) (double 0.406)) (double 0.225)
   = Fin (- (4063247663805381 / 2251799813685248))"
proof -
  have a: "num_div (Fin 0) (Fin 255) = Fin 0" by simp
  have q1: "(0 + - (3656922897424843 / 9007199254740992) :: real) = - (3656922897424843 / 9007199254740992)" by simp
  have b: "num_sub (Fin 0) (Fin (3656922897424843 / 9007199254740992)) = Fin (- (3656922897424843 / 9007199254740992))"
    unfolding num_sub_def num_neg.simps num_add.simps q1 by (rule red_channel2_sub)
  have q2: "((- (3656922897424843 / 9007199254740992)) / (8106479329266893 / 36028797018963968) :: real) = - (14627691589699372 / 8106479329266893)" by simp
  have s0: "(8106479329266893 / 36028797018963968 :: real) \<noteq> 0" by simp
  have "num_div (Fin (- (3656922897424843 / 9007199254740992))) (Fin (8106479329266893 / 36028797018963968)) = double ((- (3656922897424843 / 9007199254740992)) / (8106479329266893 / 36028797018963968))"
    using s0 by (rule num_div_Fin)
  also have "\<dots> = Fin (- (4063247663805381 / 2251799813685248))" unfolding q2 by (rule red_channel2_div)
  finally have c: "num_div (Fin (- (3656922897424843 / 9007199254740992))) (Fin (8106479329266893 / 36028797018963968)) = Fin (- (4063247663805381 / 2251799813685248))" .
  show ?thesis unfolding a double_0406 double_0225 b c ..
qed

lemma black_channel0_sub: "double (- (4368491638549381 / 9007199254740992)) = Fin (- (4368491638549381 / 9007199254740992))"
  using double_eval [of "- 2" "- (4368491638549381 / 9007199254740992)" "- 8736983277098762"]
  by (simp add: powr_neg_numeral powr_minus)

lemma black_channel0_div: "double (- (17473966554197524 / 8250594517342749)) = Fin (- (2384547837636125 / 1125899906842624))"
  using double_eval [of 1 "- (17473966554197524 / 8250594517342749)" "- 4769095675272250"]
  by (simp add: powr_neg_numeral powr_minus)

lemma black_channel0_f32: "float32 (- (2384547837636125 / 1125899906842624)) = Fin (- (8883133 / 4194304))"
  using float32_eval [of 1 "- (2384547837636125 / 1125899906842624)" "- 8883133"]
  by (simp add: powr_neg_numeral powr_minus)

lemma black_channel0:
  "Float32Array_store
     (num_div (num_sub (num_div (Fin 0) (Fin 255)) (double 0.485)) (double 0.229))
   = Fin (- (8883133 / 4194304))"
proof -
  have a: "num_div (Fin 0) (Fin 255) = Fin 0" by simp
  have q1: "(0 + - (4368491638549381 / 9007199254740992) :: real) = - (4368491638549381 / 9007199254740992)" by simp
  have b: "num_sub (Fin 0) (Fin (4368491638549381 / 9007199254740992)) = Fin (- (4368491638549381 / 9007199254740992))"
    unfolding num_sub_def num_neg.simps num_add.simps q1 by (rule black_channel0_sub)
  have q2: "((- (4368491638549381 / 9007199254740992)) / (8250594517342749 / 36028797018963968) :: real) = - (17473966554197524 / 8250594517342749)" by simp
  have s0: "(8250594517342749 / 36028797018963968 :: real) \<noteq> 0" by simp
  have "num_div (Fin (- (4368491638549381 / 9007199254740992))) (Fin (8250594517342749 / 36028797018963968)) = double ((- (4368491638549381 / 9007199254740992)) / (8250594517342749 / 36028797018963968))"
    using s0 by (rule num_div_Fin)
  also have "\<dots> = Fin (- (2384547837636125 / 1125899906842624))" unfolding q2 by (rule black_channel0_div)
  finally have c: "num_div (Fin (- (4368491638549381 / 9007199254740992))) (Fin (8250594517342749 / 36028797018963968)) = Fin (- (2384547837636125 / 1125899906842624))" .
  have d: "Float32Array_store (Fin (- (2384547837636125 / 1125899906842624))) = Fin (- (8883133 / 4194304))"
    unfolding Float32Array_store.simps by (rule black_channel0_f32)
  show ?thesis unfolding a double_0485 double_0229 b c d ..
qed

lemma black_channel0_double:
  "num_div (num_sub (num_div (Fin 0) (Fin 255)) (double 0.485)) (double 0.229)
   = Fin (- (2384547837636125 / 1125899906842624))"
proof -
  have a: "num_div (Fin 0) (Fin 255) = Fin 0" by simp
  have q1: "(0 + - (4368491638549381 / 9007199254740992) :: real) = - (4368491638549381 / 9007199254740992)" by simp
  have b: "num_sub (Fin 0) (Fin (4368491638549381 / 9007199254740992)) = Fin (- (4368491638549381 / 9007199254740992))"
    unfolding num_sub_def num_neg.simps num_add.simps q1 by (rule black_channel0_sub)
  have q2: "((- (4368491638549381 / 9007199254740992)) / (8250594517342749 / 36028797018963968) :: real) = - (17473966554197524 / 8250594517342749)" by simp
  have s0: "(8250594517342749 / 36028797018963968 :: real) \<noteq> 0" by simp
  have "num_div (Fin (- (4368491638549381 / 9007199254740992))) (Fin (8250594517342749 / 36028797018963968)) = double ((- (4368491638549381 / 9007199254740992)) / (8250594517342749 / 36028797018963968))"
    using s0 by (rule num_div_Fin)
  also have "\<dots> = Fin (- (2384547837636125 / 1125899906842624))" unfolding q2 by (rule black_channel0_div)
  finally have c: "num_div (Fin (- (4368491638549381 / 9007199254740992))) (Fin (8250594517342749 / 36028797018963968)) = Fin (- (2384547837636125 / 1125899906842624))" .
  show ?thesis unfolding a double_0485 double_0229 b c ..
qed

lemma red_channels:
  "real (unat (channel_of 0 (intToRGBA 0xFF0000FF))) = 255"
  "real (unat (channel_of 1 (intToRGBA 0xFF0000FF))) = 0"
  "real (unat (channel_of 2 (intToRGBA 0xFF0000FF))) = 0"
  by (simp_all add: channel_of_def intToRGBA_def)

lemma literal_nth:
  "[double 0.485, double 0.456, double 0.406] ! 0 = double 0.485"
  "[double 0.485, double 0.456, double 0.406] ! 1 = double 0.456"
  "[double 0.485, double 0.456, double 0.406] ! 2 = double 0.406"
  "[double 0.229, double 0.224, double 0.225] ! 0 = double 0.229"
  "[double 0.229, double 0.224, double 0.225] ! 1 = double 0.224"
  "[double 0.229, double 0.224, double 0.225] ! 2 = double 0.225"
  by simp_all

lemma solid_red_simps:
  "jimp_read solid_red src = Inr ()"
  "jimp_getPixelColor solid_red img w h = 0xFF0000FF"
  by (simp_all add: solid_red_def)

text \<open>
  A solid red image: the entries of the three channels of the pixel at column 7, row 5.
\<close>

theorem preprocess_layout_witness:
  "jimp_read solid_red () = Inr () \<and>
   (\<exists>buf. preprocessImage solid_red () = Inr buf \<and> length buf = 150528 \<and>
      buf ! (0 * 224 * 224 + 5 * 224 + 7) = Fin (9432605 / 4194304) \<and>
      buf ! (1 * 224 * 224 + 5 * 224 + 7) = Fin (- (8538405 / 4194304)) \<and>
      buf ! (2 * 224 * 224 + 5 * 224 + 7) = Fin (- (15136777 / 8388608)))"
proof -
  have rd: "jimp_read solid_red () = Inr ()" by (rule solid_red_simps)
  from preprocess_layout [OF rd] obtain buf where
    b: "preprocessImage solid_red () = Inr buf" "length buf = 150528"
    and n: "\<And>c h w. c < 3 \<Longrightarrow> h < 224 \<Longrightarrow> w < 224 \<Longrightarrow>
        buf ! (c * 224 * 224 + h * 224 + w) =
          Float32Array_store
            (num_div
               (num_sub
                  (num_div
                     (Fin (real (unat (channel_of c
                        (intToRGBA (jimp_getPixelColor solid_red (jimp_resize solid_red () 224 224) w h))))))
                     (Fin 255))
                  ([double 0.485, double 0.456, double 0.406] ! c))
               ([double 0.229, double 0.224, double 0.225] ! c))"
    by blast
  have c: "(0::nat) < 3" "(1::nat) < 3" "(2::nat) < 3" and h: "(5::nat) < 224" and w: "(7::nat) < 224"
    by simp_all
  have "buf ! (0 * 224 * 224 + 5 * 224 + 7) = Fin (9432605 / 4194304)"
    unfolding n [OF c(1) h w] solid_red_simps red_channels literal_nth by (rule red_channel0)
  moreover have "buf ! (1 * 224 * 224 + 5 * 224 + 7) = Fin (- (8538405 / 4194304))"
    unfolding n [OF c(2) h w] solid_red_simps red_channels literal_nth by (rule red_channel1)
  moreover have "buf ! (2 * 224 * 224 + 5 * 224 + 7) = Fin (- (15136777 / 8388608))"
    unfolding n [OF c(3) h w] solid_red_simps red_channels literal_nth by (rule red_channel2)
  ultimately show ?thesis using rd b by blast
qed

lemma black_channels:
  "real (unat (channel_of 0 (intToRGBA 0))) = 0"
  by (simp add: channel_of_def intToRGBA_def)

lemma entry_0_5_7:
  "processPixels p ! (0 * 224 * 224 + 5 * 224 + 7) =
     Float32Array_store
       (num_div
          (num_sub (num_div (Fin (real (unat (channel_of 0 (intToRGBA (p 7 5)))))) (Fin 255))
             (double 0.485))
          (double 0.229))"
  using nth_processPixels [of 0 5 7 p] pixel_value_channel [of 0 p 5 7]
  by (simp add: channels_def height_def width_def)

lemma red_entry:
  "processPixels (\<lambda>w h. 0xFF0000FF) ! (0 * 224 * 224 + 5 * 224 + 7) = Fin (9432605 / 4194304)"
  unfolding entry_0_5_7 red_channels by (rule red_channel0)

lemma black_entry:
  "processPixels (\<lambda>w h. 0) ! (0 * 224 * 224 + 5 * 224 + 7) = Fin (- (8883133 / 4194304))"
  unfolding entry_0_5_7 black_channels by (rule black_channel0)

text \<open>
  C1 as stated fails: for the red channel of a red pixel the buffer holds
  \<open>9432605/4194304\<close>, which is neither the double that the arithmetic gives before the
  store nor the real number \<open>(255/255 - 0.485) / 0.229\<close>.
\<close>

theorem preprocess_layout_counterexample:
  "\<not> isl (preprocessImage solid_red ())
   \<and> projr (preprocessImage solid_red ()) ! (0 * 224 * 224 + 5 * 224 + 7) = Fin (9432605 / 4194304)
   \<and> num_div (num_sub (num_div (Fin 255) (Fin 255)) (double 0.485)) (double 0.229)
       = Fin (5064091284051977 / 2251799813685248)
   \<and> (9432605 / 4194304 :: real) \<noteq> 5064091284051977 / 2251799813685248
   \<and> (9432605 / 4194304 :: real) \<noteq> (255 / 255 - 0.485) / 0.229"
proof -
  have p: "preprocessImage solid_red () = Inr (processPixels (\<lambda>w h. 0xFF0000FF))"
    by (simp add: preprocessImage_def solid_red_def)
  have "projr (preprocessImage solid_red ()) ! (0 * 224 * 224 + 5 * 224 + 7) = Fin (9432605 / 4194304)"
    unfolding p sum.sel by (rule red_entry)
  moreover have "\<not> isl (preprocessImage solid_red ())" by (simp add: p)
  moreover have "(9432605 / 4194304 :: real) \<noteq> 5064091284051977 / 2251799813685248" by simp
  moreover have "(9432605 / 4194304 :: real) \<noteq> (255 / 255 - 0.485) / 0.229" by simp
  ultimately show ?thesis using red_channel0_double by blast
qed

lemma pixel_value_same_rgb:
  assumes "same_rgb (p w h) (q w h)"
  shows "pixel_value p c h w = pixel_value q c h w"
  using assms by (simp add: pixel_value_def same_rgb_def Let_def)

lemma processPixels_same_rgb:
  assumes "\<And>w h. w < width \<Longrightarrow> h < height \<Longrightarrow> same_rgb (p w h) (q w h)"
  shows "processPixels p = processPixels q"
proof -
  have "Array_from channels (\<lambda>c. Array_from height (\<lambda>h. Array_from width (\<lambda>w. pixel_value p c h w)))
      = Array_from channels (\<lambda>c. Array_from height (\<lambda>h. Array_from width (\<lambda>w. pixel_value q c h w)))"
    unfolding Array_from_def
    by (intro map_cong refl pixel_value_same_rgb assms) simp_all
  then show ?thesis by (simp only: processPixels_eq)
qed

text \<open>
  C10 (amended). For any two decoded images whose resized images, the 224 x 224 images
  that \<open>processPixels\<close> reads, agree on the R, G and B components at every position,
  whatever their alpha, \<open>preprocessImage\<close> produces identical buffers.
\<close>

theorem alpha_independent:
  assumes "jimp_read J src1 = Inr img1" and "jimp_read J src2 = Inr img2"
    and "\<forall>w<224. \<forall>h<224.
           same_rgb (jimp_getPixelColor J (jimp_resize J img1 224 224) w h)
                    (jimp_getPixelColor J (jimp_resize J img2 224 224) w h)"
  shows "preprocessImage J src1 = preprocessImage J src2"
proof -
  have "processPixels (jimp_getPixelColor J (jimp_resize J img1 224 224))
      = processPixels (jimp_getPixelColor J (jimp_resize J img2 224 224))"
    using assms(3) by (intro processPixels_same_rgb) (simp add: width_def height_def)
  then show ?thesis by (simp add: preprocessImage_def assms(1,2))
qed

text \<open>
  Two images that are red everywhere, one opaque and one fully transparent, with a resize
  that leaves the pixels as they are.
\<close>

theorem alpha_independent_witness:
  "jimp_read two_alphas True = Inr True \<and> jimp_read two_alphas False = Inr False
   \<and> same_rgb 0xFF0000FF 0xFF000000
   \<and> jimp_getPixelColor two_alphas True 0 0 \<noteq> jimp_getPixelColor two_alphas False 0 0
   \<and> preprocessImage two_alphas True = preprocessImage two_alphas False"
proof -
  have rgb: "same_rgb 0xFF0000FF 0xFF000000"
    by (simp add: same_rgb_def intToRGBA_def)
  have px: "jimp_getPixelColor two_alphas (jimp_resize two_alphas True 224 224) w h = 0xFF0000FF"
    "jimp_getPixelColor two_alphas (jimp_resize two_alphas False 224 224) w h = 0xFF000000" for w h
    by (simp_all add: two_alphas_def)
  have rd: "jimp_read two_alphas True = Inr True" "jimp_read two_alphas False = Inr False"
    by (simp_all add: two_alphas_def)
  have "preprocessImage two_alphas True = preprocessImage two_alphas False"
    using alpha_independent [OF rd] rgb by (simp add: px)
  moreover have "jimp_getPixelColor two_alphas True 0 0 \<noteq> jimp_getPixelColor two_alphas False 0 0"
    by (simp add: two_alphas_def)
  ultimately show ?thesis using rd rgb by simp
qed

text \<open>
  C10 as stated fails when the resize lets alpha reach the colour. With an image library
  whose resize turns a fully transparent pixel black, two decoded images that agree on
  r, g and b at every position and differ in alpha give different buffers.
\<close>

theorem alpha_reaches_colour_in_resize:
  "jimp_read blending True = Inr 0 \<and> jimp_read blending False = Inr 1
   \<and> (\<forall>w h. same_rgb (jimp_getPixelColor blending 0 w h) (jimp_getPixelColor blending 1 w h))
   \<and> jimp_getPixelColor blending 0 7 5 \<noteq> jimp_getPixelColor blending 1 7 5
   \<and> preprocessImage blending True \<noteq> preprocessImage blending False"
proof -
  have rgb: "same_rgb 0xFF0000FF 0xFF000000"
    by (simp add: same_rgb_def intToRGBA_def)
  have t: "preprocessImage blending True = Inr (processPixels (\<lambda>w h. 0xFF0000FF))"
    by (simp add: preprocessImage_def blending_def)
  have f: "preprocessImage blending False = Inr (processPixels (\<lambda>w h. 0))"
    by (simp add: preprocessImage_def blending_def)
  have "processPixels (\<lambda>w h. 0xFF0000FF) \<noteq> processPixels (\<lambda>w h. 0)"
  proof
    assume "processPixels (\<lambda>w h. 0xFF0000FF) = processPixels (\<lambda>w h. 0)"
    then have "processPixels (\<lambda>w h. 0xFF0000FF) ! (0 * 224 * 224 + 5 * 224 + 7)
        = processPixels (\<lambda>w h. 0) ! (0 * 224 * 224 + 5 * 224 + 7)" by simp
    then show False unfolding red_entry black_entry by simp
  qed
  then have "preprocessImage blending True \<noteq> preprocessImage blending False"
    by (simp add: t f)
  then show ?thesis using rgb by (simp add: blending_def)
qed

section \<open>Properties of the softmax\<close>

lemma max2_Fin_cases:
  assumes "max2 a x = Fin m"
  shows "(a = Fin m \<or> x = Fin m)
       \<and> (a = NegInf \<or> (\<exists>r. a = Fin r \<and> r \<le> m))
       \<and> (x = NegInf \<or> (\<exists>r. x = Fin r \<and> r \<le> m))"
  using assms by (cases a; cases x) (auto simp: max_def split: if_splits)

lemma foldl_max2_Fin:
  assumes "foldl max2 a xs = Fin m"
  shows "(a = Fin m \<or> Fin m \<in> set xs)
       \<and> (\<forall>x\<in>insert a (set xs). x = NegInf \<or> (\<exists>r. x = Fin r \<and> r \<le> m))"
  using assms
proof (induction xs arbitrary: a)
  case Nil
  then show ?case by simp
next
  case (Cons x xs)
  from Cons.prems have "foldl max2 (max2 a x) xs = Fin m" by simp
  from Cons.IH [OF this]
  have 1: "max2 a x = Fin m \<or> Fin m \<in> set xs"
    and 2: "\<forall>y\<in>insert (max2 a x) (set xs). y = NegInf \<or> (\<exists>r. y = Fin r \<and> r \<le> m)"
    by auto
  from 2 have "max2 a x = NegInf \<or> (\<exists>r. max2 a x = Fin r \<and> r \<le> m)" by simp
  then have ax: "(a = NegInf \<or> (\<exists>r. a = Fin r \<and> r \<le> m)) \<and> (x = NegInf \<or> (\<exists>r. x = Fin r \<and> r \<le> m))"
  proof
    assume "max2 a x = NegInf"
    then show ?thesis by (cases a; cases x) auto
  next
    assume "\<exists>r. max2 a x = Fin r \<and> r \<le> m"
    then obtain r where r: "max2 a x = Fin r" "r \<le> m" by blast
    from max2_Fin_cases [OF r(1)] r(2) show ?thesis by auto
  qed
  have "a = Fin m \<or> Fin m \<in> set (x # xs)"
    using 1 max2_Fin_cases [of a x m] by auto
  with ax 2 show ?case by auto
qed

lemma Math_max_Fin:
  assumes "Math_max xs = Fin m"
  shows "Fin m \<in> set xs" and "\<forall>x\<in>set xs. x = NegInf \<or> (\<exists>r. x = Fin r \<and> r \<le> m)"
  using foldl_max2_Fin [of NegInf xs m] assms by (auto simp: Math_max_def)

text \<open>
  \<open>Math.max\<close> is a finite number exactly when no argument is \<open>NaN\<close> or \<open>Infinity\<close>
  and some argument is finite: that is, the arguments are not empty and not
  \<open>-Infinity\<close> throughout.
\<close>

lemma foldl_max2_finite:
  assumes "NaN \<notin> set xs" and "PosInf \<notin> set xs" and "a \<noteq> NaN" and "a \<noteq> PosInf"
  shows "is_finite (foldl max2 a xs) \<longleftrightarrow> is_finite a \<or> (\<exists>r. Fin r \<in> set xs)"
  using assms
proof (induction xs arbitrary: a)
  case Nil
  then show ?case by simp
next
  case (Cons x xs)
  from Cons.prems have x: "x \<noteq> NaN" "x \<noteq> PosInf" by auto
  have m: "max2 a x \<noteq> NaN" "max2 a x \<noteq> PosInf"
    "is_finite (max2 a x) \<longleftrightarrow> is_finite a \<or> is_finite x"
    using x Cons.prems(3,4) by (cases a; cases x; simp)+
  have "is_finite (foldl max2 (max2 a x) xs) \<longleftrightarrow> is_finite (max2 a x) \<or> (\<exists>r. Fin r \<in> set xs)"
    using Cons.prems(1,2) m(1,2) by (intro Cons.IH) simp_all
  moreover have "is_finite x \<longleftrightarrow> (\<exists>r. x = Fin r)" by (cases x) simp_all
  ultimately show ?case using m(3) by auto
qed

lemma Math_max_finite_iff:
  "is_finite (Math_max xs) \<longleftrightarrow> NaN \<notin> set xs \<and> PosInf \<notin> set xs \<and> (\<exists>r. Fin r \<in> set xs)"
proof
  assume "is_finite (Math_max xs)"
  then obtain m where m: "Math_max xs = Fin m" by (cases "Math_max xs") auto
  from Math_max_Fin [OF m] show "NaN \<notin> set xs \<and> PosInf \<notin> set xs \<and> (\<exists>r. Fin r \<in> set xs)"
    by auto
next
  assume "NaN \<notin> set xs \<and> PosInf \<notin> set xs \<and> (\<exists>r. Fin r \<in> set xs)"
  then show "is_finite (Math_max xs)"
    using foldl_max2_finite [of xs NegInf] by (simp add: Math_max_def)
qed

lemma foldl_max2_PosInf:
  "foldl max2 a xs = PosInf \<Longrightarrow> a = PosInf \<or> PosInf \<in> set xs"
proof (induction xs arbitrary: a)
  case Nil
  then show ?case by simp
next
  case (Cons x xs)
  from Cons.prems have "foldl max2 (max2 a x) xs = PosInf" by simp
  from Cons.IH [OF this] have "max2 a x = PosInf \<or> PosInf \<in> set xs" .
  moreover have "a = PosInf \<or> x = PosInf" if "max2 a x = PosInf"
    using that by (cases a; cases x) auto
  ultimately show ?case by auto
qed

lemma foldl_max2_NegInf:
  "foldl max2 a xs = NegInf \<Longrightarrow> a = NegInf \<and> (\<forall>x\<in>set xs. x = NegInf)"
proof (induction xs arbitrary: a)
  case Nil
  then show ?case by simp
next
  case (Cons x xs)
  from Cons.prems have "foldl max2 (max2 a x) xs = NegInf" by simp
  from Cons.IH [OF this] have "max2 a x = NegInf" "\<forall>y\<in>set xs. y = NegInf" by auto
  moreover have "a = NegInf \<and> x = NegInf" if "max2 a x = NegInf"
    using that by (cases a; cases x) auto
  ultimately show ?case by auto
qed

lemma foldl_num_add_NaN_acc: "foldl num_add NaN es = NaN"
  by (induction es) simp_all

lemma foldl_num_add_NaN: "NaN \<in> set es \<Longrightarrow> foldl num_add a es = NaN"
proof (induction es arbitrary: a)
  case Nil
  then show ?case by simp
next
  case (Cons e es)
  show ?case
  proof (cases "e = NaN")
    case True
    have "num_add a NaN = NaN" by (cases a) simp_all
    then show ?thesis by (simp add: True foldl_num_add_NaN_acc)
  next
    case False
    with Cons.prems have "NaN \<in> set es" by simp
    then show ?thesis by (simp add: Cons.IH)
  qed
qed

lemma num_div_NaN_right: "num_div a NaN = NaN"
  by (cases a) simp_all

lemma computeSoftmax_eq:
  "computeSoftmax logits =
     map (\<lambda>e. num_div e (foldl num_add (Fin 0)
                 (map (\<lambda>x. Math_exp (num_sub x (Math_max logits))) logits)))
       (map (\<lambda>x. Math_exp (num_sub x (Math_max logits))) logits)"
  by (simp add: computeSoftmax_def Let_def)

text \<open>When the largest logit is not a finite number, every output is \<open>NaN\<close>.\<close>

lemma softmax_all_NaN:
  assumes "\<not> is_finite (Math_max logits)" and "p \<in> set (computeSoftmax logits)"
  shows "p = NaN"
proof -
  let ?m = "Math_max logits"
  let ?es = "map (\<lambda>x. Math_exp (num_sub x ?m)) logits"
  let ?S = "foldl num_add (Fin 0) ?es"
  from assms(2) obtain x where x: "x \<in> set logits"
    and p: "p = num_div (Math_exp (num_sub x ?m)) ?S"
    by (auto simp: computeSoftmax_eq)
  from assms(1) consider "?m = NaN" | "?m = PosInf" | "?m = NegInf" by (cases ?m) auto
  then show ?thesis
  proof cases
    case 1
    have "num_sub x NaN = NaN" by (cases x) (simp_all add: num_sub_def)
    then show ?thesis by (simp add: p 1)
  next
    case 2
    then have "PosInf \<in> set logits" using foldl_max2_PosInf [of NegInf logits] by (simp add: Math_max_def)
    then have "Math_exp (num_sub PosInf ?m) \<in> set ?es" by force
    then have "NaN \<in> set ?es" by (simp add: 2 num_sub_def)
    then have "?S = NaN" by (rule foldl_num_add_NaN)
    then show ?thesis by (simp add: p num_div_NaN_right)
  next
    case 3
    then have "x = NegInf" using foldl_max2_NegInf [of NegInf logits] x by (simp add: Math_max_def)
    then show ?thesis by (simp add: p 3 num_sub_def)
  qed
qed

lemma is_probability_Fin:
  "is_probability (Fin r) \<longleftrightarrow> 0 \<le> r \<and> r \<le> 1 \<and> round_real 53 (- 1022) r = r"
  by (simp add: is_probability_def)

lemma is_probabilityE:
  assumes "is_probability x"
  obtains r where "x = Fin r" "0 \<le> r" "r \<le> 1" "round_real 53 (- 1022) r = r"
  using assms by (cases x) (auto simp: is_probability_def)

lemma round_real_one: "round_real 53 (- 1022) 1 = 1"
  by (rule round_real_exact [where m = 1 and j = 0]) simp_all

lemma one_le_two_powr_1023: "(1::real) \<le> 2 powr 1023"
  using powr_mono [of "0::real" 1023 2] by simp

lemma double_unit:
  assumes "0 \<le> x" and "x \<le> 1"
  shows "is_probability (double x)"
proof -
  have "\<bar>x\<bar> \<le> 2 powr 1023" using assms one_le_two_powr_1023 by simp
  then have d: "double x = Fin (round_real 53 (- 1022) x)" by (rule double_finite)
  have "0 \<le> round_real 53 (- 1022) x" using assms(1) by (rule round_real_nonneg)
  moreover have "round_real 53 (- 1022) x \<le> 1"
    using assms round_real_one by (rule round_real_le_rep)
  moreover have "round_real 53 (- 1022) (round_real 53 (- 1022) x) = round_real 53 (- 1022) x"
    by (rule round_real_idem) simp
  ultimately show ?thesis by (simp add: d is_probability_Fin)
qed

lemma exp_term_NegInf: "Math_exp (num_sub NegInf (Fin m)) = Fin 0"
  by (simp add: num_sub_def)

lemma exp_term_max: "Math_exp (num_sub (Fin m) (Fin m)) = Fin 1"
  by (simp add: num_sub_def)

lemma exp_term_Fin:
  assumes "r \<le> m"
  shows "is_probability (Math_exp (num_sub (Fin r) (Fin m)))"
proof -
  have s: "num_sub (Fin r) (Fin m) = double (r + - m)" by (simp add: num_sub_def)
  have "r + - m \<le> 0" using assms by simp
  from double_sign(1) [OF this]
  show ?thesis
  proof
    assume "double (r + - m) = NegInf"
    then show ?thesis by (simp add: s is_probability_Fin)
  next
    assume "\<exists>d. double (r + - m) = Fin d \<and> d \<le> 0"
    then obtain d where d: "double (r + - m) = Fin d" "d \<le> 0" by blast
    have "0 \<le> exp d" "exp d \<le> 1" using d(2) by simp_all
    then have "is_probability (double (exp d))" by (rule double_unit)
    moreover have "Math_exp (num_sub (Fin r) (Fin m)) = double (exp d)"
      unfolding s d(1) by simp
    ultimately show ?thesis by simp
  qed
qed

lemma exp_terms:
  assumes "Math_max logits = Fin m"
  shows "list_all is_probability (map (\<lambda>x. Math_exp (num_sub x (Fin m))) logits)"
    and "Fin 1 \<in> set (map (\<lambda>x. Math_exp (num_sub x (Fin m))) logits)"
proof -
  from Math_max_Fin [OF assms]
  have mem: "Fin m \<in> set logits"
    and le: "\<forall>x\<in>set logits. x = NegInf \<or> (\<exists>r. x = Fin r \<and> r \<le> m)" by auto
  have "is_probability (Math_exp (num_sub x (Fin m)))" if "x \<in> set logits" for x
  proof -
    from le that have "x = NegInf \<or> (\<exists>r. x = Fin r \<and> r \<le> m)" by blast
    then show ?thesis
    proof
      assume "x = NegInf"
      then show ?thesis by (simp add: exp_term_NegInf is_probability_Fin)
    next
      assume "\<exists>r. x = Fin r \<and> r \<le> m"
      then show ?thesis using exp_term_Fin by blast
    qed
  qed
  then show "list_all is_probability (map (\<lambda>x. Math_exp (num_sub x (Fin m))) logits)"
    by (simp add: list_all_iff)
  have "Math_exp (num_sub (Fin m) (Fin m)) \<in> set (map (\<lambda>x. Math_exp (num_sub x (Fin m))) logits)"
    using mem by force
  then show "Fin 1 \<in> set (map (\<lambda>x. Math_exp (num_sub x (Fin m))) logits)"
    by (simp only: exp_term_max)
qed

text \<open>
  The floating-point sum of probabilities, from a non-negative double: it is \<open>Infinity\<close> or
  a double that is at least the starting value and at least every term.
\<close>

lemma foldl_num_add_PosInf:
  "list_all is_probability es \<Longrightarrow> foldl num_add PosInf es = PosInf"
proof (induction es)
  case Nil
  then show ?case by simp
next
  case (Cons e es)
  from Cons.prems obtain r where "e = Fin r" by (auto elim: is_probabilityE)
  with Cons show ?case by simp
qed

lemma foldl_num_add_cases:
  assumes "list_all is_probability es" and "0 \<le> a" and "round_real 53 (- 1022) a = a"
  shows "foldl num_add (Fin a) es = PosInf
       \<or> (\<exists>t. foldl num_add (Fin a) es = Fin t \<and> round_real 53 (- 1022) t = t \<and> a \<le> t
               \<and> (\<forall>r. Fin r \<in> set es \<longrightarrow> r \<le> t))"
  using assms
proof (induction es arbitrary: a)
  case Nil
  then show ?case by simp
next
  case (Cons e es)
  from Cons.prems(1) obtain r where e: "e = Fin r" and r: "0 \<le> r" "round_real 53 (- 1022) r = r"
    and es: "list_all is_probability es"
    by (auto elim: is_probabilityE)
  have step: "foldl num_add (Fin a) (e # es) = foldl num_add (double (a + r)) es"
    by (simp add: e)
  have "0 \<le> a + r" using Cons.prems(2) r(1) by simp
  from double_sign(2) [OF this]
  show ?case
  proof
    assume "double (a + r) = PosInf"
    then show ?thesis using foldl_num_add_PosInf [OF es] unfolding step by simp
  next
    assume "\<exists>d. double (a + r) = Fin d \<and> 0 \<le> d"
    then obtain d where d: "double (a + r) = Fin d" "0 \<le> d" by blast
    have dr: "d = round_real 53 (- 1022) (a + r)"
      using d(1) by (auto simp: double_def to_format_def Let_def split: if_splits)
    have idem: "round_real 53 (- 1022) d = d"
      unfolding dr by (rule round_real_idem) simp
    have ad: "a \<le> d" unfolding dr
      using Cons.prems(2) _ Cons.prems(3) by (rule round_real_ge_rep) (use r(1) in simp_all)
    have rd: "r \<le> d" unfolding dr
      using r(1) _ r(2) by (rule round_real_ge_rep) (use Cons.prems(2) in simp_all)
    from Cons.IH [OF es d(2) idem]
    show ?thesis
    proof
      assume "foldl num_add (Fin d) es = PosInf"
      then show ?thesis unfolding step d(1) by simp
    next
      assume "\<exists>t. foldl num_add (Fin d) es = Fin t \<and> round_real 53 (- 1022) t = t \<and> d \<le> t
               \<and> (\<forall>r. Fin r \<in> set es \<longrightarrow> r \<le> t)"
      then obtain t where t: "foldl num_add (Fin d) es = Fin t" "round_real 53 (- 1022) t = t"
        "d \<le> t" "\<forall>r. Fin r \<in> set es \<longrightarrow> r \<le> t" by blast
      have "foldl num_add (Fin a) (e # es) = Fin t" unfolding step d(1) by (rule t(1))
      moreover have "a \<le> t" using ad t(3) by simp
      moreover have "\<forall>r'. Fin r' \<in> set (e # es) \<longrightarrow> r' \<le> t"
        using t(4) rd t(3) by (auto simp: e)
      ultimately show ?thesis using t(2) by blast
    qed
  qed
qed

lemma num_div_probability:
  assumes "is_probability e" and "Fin 1 \<in> set es" and "e \<in> set es" and "list_all is_probability es"
  shows "is_probability (num_div e (foldl num_add (Fin 0) es))"
proof -
  from assms(1) obtain r where e: "e = Fin r" and r: "0 \<le> r" "r \<le> 1"
    by (auto elim: is_probabilityE)
  have "foldl num_add (Fin 0) es = PosInf
       \<or> (\<exists>t. foldl num_add (Fin 0) es = Fin t \<and> round_real 53 (- 1022) t = t \<and> 0 \<le> t
               \<and> (\<forall>r. Fin r \<in> set es \<longrightarrow> r \<le> t))"
    by (rule foldl_num_add_cases [OF assms(4)]) simp_all
  then show ?thesis
  proof
    assume "foldl num_add (Fin 0) es = PosInf"
    then show ?thesis by (simp add: e is_probability_Fin)
  next
    assume "\<exists>t. foldl num_add (Fin 0) es = Fin t \<and> round_real 53 (- 1022) t = t \<and> 0 \<le> t
               \<and> (\<forall>r. Fin r \<in> set es \<longrightarrow> r \<le> t)"
    then obtain t where t: "foldl num_add (Fin 0) es = Fin t" "\<forall>r. Fin r \<in> set es \<longrightarrow> r \<le> t"
      by blast
    from t(2) assms(2) have t1: "1 \<le> t" by blast
    from t(2) assms(3) have rt: "r \<le> t" by (auto simp: e)
    have "0 \<le> r / t" "r / t \<le> 1" using r(1) rt t1 by simp_all
    then have "is_probability (double (r / t))" by (rule double_unit)
    then show ?thesis using t1 by (simp add: e t(1))
  qed
qed

text \<open>When the largest logit is a finite number, every output is a double within [0, 1].\<close>

lemma softmax_probabilities:
  assumes "is_finite (Math_max logits)"
  shows "list_all is_probability (computeSoftmax logits)"
proof -
  from assms obtain m where m: "Math_max logits = Fin m" by (cases "Math_max logits") auto
  let ?es = "map (\<lambda>x. Math_exp (num_sub x (Fin m))) logits"
  note es = exp_terms [OF m]
  have "is_probability (num_div e (foldl num_add (Fin 0) ?es))" if "e \<in> set ?es" for e
  proof -
    from es(1) that have "is_probability e" by (simp only: list_all_iff)
    then show ?thesis using es(2) that es(1) by (rule num_div_probability)
  qed
  then have "list_all (\<lambda>e. is_probability (num_div e (foldl num_add (Fin 0) ?es))) ?es"
    by (simp only: list_all_iff) blast
  then show ?thesis
    by (simp only: computeSoftmax_eq m list.pred_map comp_def)
qed

lemma fsum_bounds:
  fixes u \<eta> :: real
  assumes u: "0 \<le> u" "u \<le> 1" and \<eta>: "0 \<le> \<eta>"
    and err: "\<And>x. \<bar>round_real 53 (- 1022) x - x\<bar> \<le> u * \<bar>x\<bar> + \<eta>"
    and vs: "\<forall>v\<in>set vs. 0 \<le> v" and a: "0 \<le> a"
    and bound: "(1 + u) ^ length vs * (a + sum_list vs + real (length vs) * \<eta>) \<le> 2 powr 1023"
  shows "\<exists>t. foldl num_add (Fin a) (map Fin vs) = Fin t \<and> 0 \<le> t
            \<and> t \<le> (1 + u) ^ length vs * (a + sum_list vs + real (length vs) * \<eta>)
            \<and> (1 - u) ^ length vs * (a + sum_list vs) - real (length vs) * \<eta> \<le> t"
  using vs a bound
proof (induction vs arbitrary: a)
  case Nil
  then show ?case by simp
next
  case (Cons v vs)
  let ?n = "length vs" and ?s = "sum_list vs"
  let ?P = "(1 + u) ^ ?n" and ?Q = "(1 - u) ^ ?n"
  let ?X = "a + v + ?s + (real ?n + 1) * \<eta>"
  let ?d = "round_real 53 (- 1022) (a + v)"
  have v: "0 \<le> v" and vs: "\<forall>v\<in>set vs. 0 \<le> v" using Cons.prems(1) by simp_all
  have s: "0 \<le> ?s" using vs by (simp add: sum_list_nonneg)
  have P: "1 \<le> ?P" using u(1) by (simp add: one_le_power)
  have Q: "0 \<le> ?Q" "?Q \<le> 1" using u by (simp_all add: power_le_one)
  have n\<eta>: "0 \<le> real ?n * \<eta>" using \<eta> by simp
  have X: "0 \<le> ?X" using Cons.prems(2) v s \<eta> n\<eta> by (simp add: algebra_simps)
  have B: "?P * ((1 + u) * ?X) \<le> 2 powr 1023"
    using Cons.prems(3) by (simp add: algebra_simps)
  have UX: "?X \<le> (1 + u) * ?X" using u(1) X by (simp add: mult_le_cancel_right1)
  have UX0: "0 \<le> (1 + u) * ?X" using u(1) X by simp
  have PUX: "(1 + u) * ?X \<le> ?P * ((1 + u) * ?X)"
    using mult_right_mono [OF P UX0] by simp
  have av: "0 \<le> a + v" using Cons.prems(2) v by simp
  have "a + v \<le> ?X" using s \<eta> n\<eta> by (simp add: algebra_simps)
  with UX PUX B have "\<bar>a + v\<bar> \<le> 2 powr 1023" using av by linarith
  then have d: "double (a + v) = Fin ?d" by (rule double_finite)
  have d0: "0 \<le> ?d" using av by (rule round_real_nonneg)
  from err [of "a + v"] av
  have dU: "?d \<le> (1 + u) * (a + v) + \<eta>" and dL: "(1 - u) * (a + v) - \<eta> \<le> ?d"
    by (simp_all add: algebra_simps abs_le_iff)
  have u_rest: "0 \<le> u * (?s + (real ?n + 1) * \<eta>)"
    using u(1) s \<eta> n\<eta> by (intro mult_nonneg_nonneg) (simp_all add: algebra_simps)
  have dX: "?d + ?s + real ?n * \<eta> \<le> (1 + u) * ?X"
    using dU u_rest by (simp add: algebra_simps)
  have "?P * (?d + ?s + real ?n * \<eta>) \<le> ?P * ((1 + u) * ?X)"
    using dX P by (intro mult_left_mono) simp_all
  with B have "?P * (?d + ?s + real ?n * \<eta>) \<le> 2 powr 1023" by linarith
  from Cons.IH [OF vs d0 this]
  obtain t where t: "foldl num_add (Fin ?d) (map Fin vs) = Fin t" "0 \<le> t"
    "t \<le> ?P * (?d + ?s + real ?n * \<eta>)" "?Q * (?d + ?s) - real ?n * \<eta> \<le> t"
    by blast
  have 1: "foldl num_add (Fin a) (map Fin (v # vs)) = Fin t"
    using t(1) d by simp
  have 2: "t \<le> (1 + u) ^ length (v # vs) * (a + sum_list (v # vs) + real (length (v # vs)) * \<eta>)"
  proof -
    have "t \<le> ?P * ((1 + u) * ?X)"
      using t(3) \<open>?P * (?d + ?s + real ?n * \<eta>) \<le> ?P * ((1 + u) * ?X)\<close> by linarith
    then show ?thesis by (simp add: algebra_simps)
  qed
  have 3: "(1 - u) ^ length (v # vs) * (a + sum_list (v # vs)) - real (length (v # vs)) * \<eta> \<le> t"
  proof -
    have "?Q * ((1 - u) * (a + v) - \<eta> + ?s) \<le> ?Q * (?d + ?s)"
      using dL Q(1) by (intro mult_left_mono) simp_all
    moreover have "?Q * ((1 - u) * (a + v) - \<eta> + ?s)
        = ?Q * (1 - u) * (a + v) - ?Q * \<eta> + ?Q * ?s" by (simp add: algebra_simps)
    moreover have "?Q * \<eta> \<le> \<eta>" using mult_right_mono [OF Q(2) \<eta>] by simp
    moreover have "?Q * (1 - u) * ?s \<le> ?Q * ?s"
    proof -
      have "1 - u \<le> 1" using u(1) by simp
      from mult_left_mono [OF this Q(1)] have "?Q * (1 - u) \<le> ?Q" by simp
      then show ?thesis using s by (rule mult_right_mono)
    qed
    ultimately have "?Q * (1 - u) * (a + v) + ?Q * (1 - u) * ?s - \<eta> - real ?n * \<eta> \<le> t"
      using t(4) by linarith
    moreover have "(1 - u) ^ length (v # vs) * (a + sum_list (v # vs)) - real (length (v # vs)) * \<eta>
        = ?Q * (1 - u) * (a + v) + ?Q * (1 - u) * ?s - \<eta> - real ?n * \<eta>"
      by (simp add: algebra_simps)
    ultimately show ?thesis by linarith
  qed
  from 1 t(2) 2 3 show ?case by blast
qed

lemma roundoff_consts:
  "(2::real) powr (- 53) = 1 / 2 ^ 53" "(2::real) powr (- 1075) = 1 / 2 ^ 1075"
  by (simp_all add: powr_neg_numeral)

lemma pow_bounds:
  assumes "n \<le> 2 ^ 32"
  shows "(1 + (2::real) powr (- 53)) ^ n \<le> 1 + 1 / 2 ^ 20" (is "?U \<le> _")
    and "1 - 1 / 2 ^ 21 \<le> (1 - (2::real) powr (- 53)) ^ n" (is "_ \<le> ?L")
    and "real n * 2 powr (- 1075) \<le> 1 / 2 ^ 40"
proof -
  let ?u = "(2::real) powr (- 53)"
  have n: "real n \<le> 2 ^ 32" using assms by (metis of_nat_le_iff of_nat_numeral of_nat_power)
  have u: "?u = 1 / 2 ^ 53" by (rule roundoff_consts)
  have nu: "real n * ?u \<le> 1 / 2 ^ 21"
  proof -
    have "real n * ?u \<le> 2 ^ 32 * ?u" using n by (intro mult_right_mono) simp_all
    also have "\<dots> = 1 / 2 ^ 21" by (simp add: u)
    finally show ?thesis .
  qed
  have nu0: "0 \<le> real n * ?u" by simp
  have "?U \<le> exp ?u ^ n" by (intro power_mono) (simp_all add: exp_ge_add_one_self)
  also have "\<dots> = exp (real n * ?u)" by (simp add: exp_of_nat_mult)
  also have "\<dots> \<le> exp (1 / 2 ^ 21)" using nu by simp
  also have "\<dots> \<le> 1 + 1 / 2 ^ 21 + (1 / 2 ^ 21)\<^sup>2" by (intro exp_bound) simp_all
  also have "\<dots> \<le> 1 + 1 / 2 ^ 20" by (simp add: power2_eq_square)
  finally show "?U \<le> 1 + 1 / 2 ^ 20" .
  have "1 + real n * (- ?u) \<le> (1 + (- ?u)) ^ n"
    by (intro Bernoulli_inequality) (simp add: u)
  then show "1 - 1 / 2 ^ 21 \<le> ?L" using nu by simp
  have "real n * 2 powr (- 1075) \<le> 2 ^ 32 * 2 powr (- 1075)"
    using n by (intro mult_right_mono) simp_all
  also have "\<dots> \<le> 1 / 2 ^ 40" by (simp add: roundoff_consts)
  finally show "real n * 2 powr (- 1075) \<le> 1 / 2 ^ 40" .
qed

lemma probabilities_values:
  assumes "list_all is_probability es"
  shows "es = map Fin (map value_of es)"
    and "\<forall>v\<in>set (map value_of es). 0 \<le> v \<and> v \<le> 1"
  using assms by (induction es) (auto elim!: is_probabilityE)

lemma sum_list_abs_diff:
  fixes f g h :: "'a \<Rightarrow> real"
  assumes "\<forall>x\<in>set xs. \<bar>f x - g x\<bar> \<le> h x"
  shows "\<bar>(\<Sum>x\<leftarrow>xs. f x) - (\<Sum>x\<leftarrow>xs. g x)\<bar> \<le> (\<Sum>x\<leftarrow>xs. h x)"
  using assms
proof (induction xs)
  case Nil
  then show ?case by simp
next
  case (Cons x xs)
  then have "\<bar>f x - g x\<bar> \<le> h x"
    and "\<bar>(\<Sum>x\<leftarrow>xs. f x) - (\<Sum>x\<leftarrow>xs. g x)\<bar> \<le> (\<Sum>x\<leftarrow>xs. h x)" by simp_all
  then show ?case by simp
qed

lemma sum_list_divide:
  fixes S :: real
  shows "(\<Sum>v\<leftarrow>vs. v / S) = sum_list vs / S"
  by (induction vs) (simp_all add: add_divide_distrib)

lemma sum_list_affine:
  fixes u \<eta> S :: real
  shows "(\<Sum>v\<leftarrow>vs. u * \<bar>v / S\<bar> + \<eta>) = u * (\<Sum>v\<leftarrow>vs. \<bar>v / S\<bar>) + real (length vs) * \<eta>"
  by (induction vs) (simp_all add: algebra_simps)

lemma sum_list_le_length:
  fixes vs :: "real list"
  assumes "\<forall>v\<in>set vs. v \<le> 1"
  shows "sum_list vs \<le> real (length vs)"
  using assms by (induction vs) auto

lemma sum_list_ge_member:
  fixes vs :: "real list"
  assumes "\<forall>v\<in>set vs. 0 \<le> v" and "x \<in> set vs"
  shows "x \<le> sum_list vs"
  using assms
proof (induction vs)
  case Nil
  then show ?case by simp
next
  case (Cons v vs)
  then have "0 \<le> v" "0 \<le> sum_list vs" by (simp_all add: sum_list_nonneg)
  with Cons show ?case by auto
qed

lemma big_bound: "(2::real) ^ 40 \<le> 2 powr 1023"
  using powr_mono [of "40::real" 1023 2] powr_realpow [of 2 40] by simp

text \<open>
  The floating-point sum of at most \<open>2\<^sup>3\<^sup>2\<close> non-negative doubles whose exact sum
  \<open>E\<close> is at most \<open>2\<^sup>3\<^sup>3\<close>: it is finite and within a relative \<open>2\<^sup>-\<^sup>2\<^sup>0\<close> of \<open>E\<close>.
\<close>

lemma fsum_close:
  assumes vs: "\<forall>v\<in>set vs. 0 \<le> v" and len: "length vs \<le> 2 ^ 32"
    and E: "sum_list vs \<le> 2 ^ 33"
  shows "\<exists>t. foldl num_add (Fin 0) (map Fin vs) = Fin t
            \<and> t \<le> (1 + 1 / 2 ^ 20) * (sum_list vs + 1 / 2 ^ 40)
            \<and> (1 - 1 / 2 ^ 21) * sum_list vs - 1 / 2 ^ 40 \<le> t"
proof -
  let ?u = "(2::real) powr (- 53)" and ?\<eta> = "(2::real) powr (- 1075)"
  let ?n = "length vs" and ?E = "sum_list vs"
  note pb = pow_bounds [OF len]
  have E0: "0 \<le> ?E" using vs by (simp add: sum_list_nonneg)
  have \<tau>0: "0 \<le> real ?n * ?\<eta>" by simp
  have U: "(1 + ?u) ^ ?n * (?E + real ?n * ?\<eta>) \<le> (1 + 1 / 2 ^ 20) * (?E + real ?n * ?\<eta>)"
    using pb(1) E0 \<tau>0 by (intro mult_right_mono) simp_all
  have U2: "(1 + 1 / 2 ^ 20) * (?E + real ?n * ?\<eta>) \<le> (1 + 1 / 2 ^ 20) * (?E + 1 / 2 ^ 40)"
    using pb(3) by (intro mult_left_mono) simp_all
  have "(1 + 1 / 2 ^ 20) * (?E + 1 / 2 ^ 40) \<le> (2::real) ^ 40" using E by simp
  with U U2 big_bound
  have "(1 + ?u) ^ ?n * (0 + ?E + real ?n * ?\<eta>) \<le> 2 powr 1023" by simp
  moreover have "0 \<le> ?u" "?u \<le> 1" by (simp_all add: roundoff_consts)
  moreover have "\<And>x. \<bar>round_real 53 (- 1022) x - x\<bar> \<le> ?u * \<bar>x\<bar> + ?\<eta>" by (rule double_error)
  ultimately have "\<exists>t. foldl num_add (Fin 0) (map Fin vs) = Fin t \<and> 0 \<le> t
            \<and> t \<le> (1 + ?u) ^ ?n * (0 + ?E + real ?n * ?\<eta>)
            \<and> (1 - ?u) ^ ?n * (0 + ?E) - real ?n * ?\<eta> \<le> t"
    using vs by (intro fsum_bounds) simp_all
  then obtain t where t: "foldl num_add (Fin 0) (map Fin vs) = Fin t"
    "t \<le> (1 + ?u) ^ ?n * (?E + real ?n * ?\<eta>)" "(1 - ?u) ^ ?n * ?E - real ?n * ?\<eta> \<le> t"
    by auto
  have L: "(1 - 1 / 2 ^ 21) * ?E \<le> (1 - ?u) ^ ?n * ?E"
    using pb(2) E0 by (intro mult_right_mono) simp_all
  have "t \<le> (1 + 1 / 2 ^ 20) * (?E + 1 / 2 ^ 40)" using t(2) U U2 by linarith
  moreover have "(1 - 1 / 2 ^ 21) * ?E - 1 / 2 ^ 40 \<le> t" using t(3) L pb(3) by linarith
  ultimately show ?thesis using t(1) by blast
qed

lemma softmax_sum:
  assumes m: "Math_max logits = Fin m" and len: "length logits \<le> 2 ^ 32"
  shows "sums_to_one (computeSoftmax logits)"
proof -
  let ?rd = "round_real 53 (- 1022)"
  let ?es = "map (\<lambda>x. Math_exp (num_sub x (Fin m))) logits"
  define vs where "vs = map value_of ?es"
  note es = exp_terms [OF m]
  have es_vs: "?es = map Fin vs" unfolding vs_def by (rule probabilities_values(1) [OF es(1)])
  have v01: "\<forall>v\<in>set vs. 0 \<le> v \<and> v \<le> 1"
    unfolding vs_def by (rule probabilities_values(2) [OF es(1)])
  have one: "1 \<in> set vs" using es(2) unfolding es_vs by auto
  have n: "length vs = length logits" by (simp add: vs_def)
  define E where "E = sum_list vs"
  have E1: "1 \<le> E" unfolding E_def using v01 one by (intro sum_list_ge_member) simp_all
  have "E \<le> real (length vs)" unfolding E_def using v01 by (intro sum_list_le_length) simp
  also have "\<dots> \<le> 2 ^ 32" using len n
    by (metis of_nat_le_iff of_nat_numeral of_nat_power)
  finally have E32: "E \<le> 2 ^ 32" .
  have "\<exists>t. foldl num_add (Fin 0) (map Fin vs) = Fin t
            \<and> t \<le> (1 + 1 / 2 ^ 20) * (sum_list vs + 1 / 2 ^ 40)
            \<and> (1 - 1 / 2 ^ 21) * sum_list vs - 1 / 2 ^ 40 \<le> t"
    using v01 len n E32 by (intro fsum_close) (simp_all add: E_def)
  then obtain S where S: "foldl num_add (Fin 0) (map Fin vs) = Fin S"
    "S \<le> (1 + 1 / 2 ^ 20) * (E + 1 / 2 ^ 40)" "(1 - 1 / 2 ^ 21) * E - 1 / 2 ^ 40 \<le> S"
    unfolding E_def by blast
  have S_half: "1 / 2 \<le> S" using S(3) E1 by simp
  have S0: "0 < S" using S_half by simp
  txt \<open>the quotient of the exact sum of the terms by their floating-point sum\<close>
  define q where "q = E / S"
  have q_hi: "q \<le> 1 + 1 / 2 ^ 20"
  proof -
    have "E \<le> (1 + 1 / 2 ^ 20) * S" using S(3) E1 by simp
    then show ?thesis unfolding q_def using S0 by (simp add: divide_le_eq)
  qed
  have q_lo: "1 - 1 / 2 ^ 19 \<le> q"
  proof -
    have "(1 - 1 / 2 ^ 19) * S \<le> E" using S(2) E1 by simp
    then show ?thesis unfolding q_def using S0 by (simp add: le_divide_eq)
  qed
  txt \<open>the outputs\<close>
  define ps where "ps = map (\<lambda>v. ?rd (v / S)) vs"
  have out: "computeSoftmax logits = map Fin ps"
  proof -
    have "num_div (Fin v) (Fin S) = Fin (?rd (v / S))" if "v \<in> set vs" for v
    proof -
      from v01 that have "0 \<le> v" "v \<le> 1" by simp_all
      then have "0 \<le> v / S" "v / S \<le> 2" using S_half S0 by (simp_all add: divide_le_eq)
      then have "\<bar>v / S\<bar> \<le> 2 powr 1023" using big_bound by simp
      then have "double (v / S) = Fin (?rd (v / S))" by (rule double_finite)
      then show ?thesis using S0 by simp
    qed
    then have "map (\<lambda>v. num_div (Fin v) (Fin S)) vs = map (\<lambda>v. Fin (?rd (v / S))) vs"
      by simp
    then show ?thesis
      by (simp only: computeSoftmax_eq m es_vs S(1) ps_def map_map comp_def)
  qed
  have ps0: "\<forall>p\<in>set ps. 0 \<le> p"
    unfolding ps_def using v01 S0 by (auto intro!: round_real_nonneg)
  have len_ps: "length ps \<le> 2 ^ 32" using len n by (simp add: ps_def)
  define P where "P = sum_list ps"
  have P: "\<bar>P - q\<bar> \<le> 1 / 2 ^ 39"
  proof -
    have abs_q: "(\<Sum>v\<leftarrow>vs. \<bar>v / S\<bar>) = q"
    proof -
      have eq: "map (\<lambda>v. \<bar>v / S\<bar>) vs = map (\<lambda>v. v / S) vs" using v01 S0 by simp
      have "(\<Sum>v\<leftarrow>vs. \<bar>v / S\<bar>) = (\<Sum>v\<leftarrow>vs. v / S)" by (simp only: eq)
      then show ?thesis by (simp only: sum_list_divide q_def E_def)
    qed
    have "\<bar>(\<Sum>v\<leftarrow>vs. ?rd (v / S)) - (\<Sum>v\<leftarrow>vs. v / S)\<bar>
            \<le> (\<Sum>v\<leftarrow>vs. 2 powr (- 53) * \<bar>v / S\<bar> + 2 powr (- 1075))"
      by (intro sum_list_abs_diff ballI double_error)
    also have "\<dots> = 2 powr (- 53) * q + real (length vs) * 2 powr (- 1075)"
      by (simp only: sum_list_affine abs_q)
    also have "\<dots> \<le> (1 / 2 ^ 53) * q + 1 / 2 ^ 40"
      using pow_bounds(3) [of "length vs"] len n by (simp add: roundoff_consts(1))
    also have "\<dots> \<le> 1 / 2 ^ 39" using q_hi by simp
    finally show ?thesis by (simp add: P_def ps_def q_def E_def sum_list_divide comp_def)
  qed
  have Pq: "P - q \<le> 1 / 2 ^ 39" "q - P \<le> 1 / 2 ^ 39" using P unfolding abs_le_iff by simp_all
  have P1': "P - 1 \<le> 1 / 2 ^ 18" "1 - P \<le> 1 / 2 ^ 18" using Pq q_hi q_lo by simp_all
  then have P1: "\<bar>P - 1\<bar> \<le> 1 / 2 ^ 18" by (simp only: abs_le_iff) simp
  have exact: "\<bar>(\<Sum>p\<leftarrow>map Fin ps. value_of p) - 1\<bar> \<le> 1 / 100000"
  proof -
    have "(\<Sum>p\<leftarrow>map Fin ps. value_of p) = P" by (simp add: P_def comp_def)
    moreover have "P - 1 \<le> 1 / 100000" "1 - P \<le> 1 / 100000" using P1' by simp_all
    ultimately show ?thesis by (simp only: abs_le_iff) simp
  qed
  txt \<open>the sum of the outputs as the program itself would compute it\<close>
  have "\<exists>t. foldl num_add (Fin 0) (map Fin ps) = Fin t
            \<and> t \<le> (1 + 1 / 2 ^ 20) * (sum_list ps + 1 / 2 ^ 40)
            \<and> (1 - 1 / 2 ^ 21) * sum_list ps - 1 / 2 ^ 40 \<le> t"
    using ps0 len_ps P1'(1) by (intro fsum_close) (simp_all add: P_def)
  then obtain F where F: "foldl num_add (Fin 0) (map Fin ps) = Fin F"
    "F \<le> (1 + 1 / 2 ^ 20) * (P + 1 / 2 ^ 40)" "(1 - 1 / 2 ^ 21) * P - 1 / 2 ^ 40 \<le> F"
    unfolding P_def by blast
  have "F - 1 \<le> 1 / 100000" "1 - F \<le> 1 / 100000" using F(2,3) P1' by simp_all
  then have "\<bar>F - 1\<bar> \<le> 1 / 100000" by (simp only: abs_le_iff) simp
  then show ?thesis using exact by (simp add: sums_to_one_def out F(1) list_all_iff)
qed

lemma is_probability_unit: "is_probability x \<Longrightarrow> in_unit_interval x"
  by (cases x) (simp_all add: is_probability_def)

lemma Math_max_pair: "Math_max [Fin a, Fin a] = Fin a"
  by (simp add: Math_max_def)

lemma computeSoftmax_pair: "computeSoftmax [Fin a, Fin a] = [Fin (1/2), Fin (1/2)]"
  by (simp add: computeSoftmax_def Math_max_pair num_sub_def del: Math_max_def)












text \<open>
  C2 (amended). For every score vector whose largest entry, \<open>Math.max(...logits)\<close>, is a
  finite number (the vector is not empty, has no \<open>NaN\<close> and no \<open>Infinity\<close> entry, and
  is not \<open>-Infinity\<close> throughout), and which has fewer than \<open>2\<^sup>3\<^sup>2\<close> entries as every
  array has: the output of \<open>computeSoftmax\<close>, computed in double arithmetic, consists of
  finite numbers that sum to 1 within 1e-5, both exactly and as added by the program, and
  every output element lies in [0, 1].
\<close>

theorem softmax_distribution:
  assumes "is_finite (Math_max logits)" and "length logits < 2 ^ 32"
  shows "sums_to_one (computeSoftmax logits)
       \<and> list_all in_unit_interval (computeSoftmax logits)"
proof -
  from assms(1) obtain m where m: "Math_max logits = Fin m"
    by (cases "Math_max logits") auto
  from assms(2) have "length logits \<le> 2 ^ 32" by simp
  with m have "sums_to_one (computeSoftmax logits)" by (rule softmax_sum)
  moreover have "list_all in_unit_interval (computeSoftmax logits)"
    using softmax_probabilities [OF assms(1)] is_probability_unit
    by (simp add: list_all_iff)
  ultimately show ?thesis by simp
qed

theorem softmax_distribution_witness:
  "is_finite (Math_max [Fin 1, NegInf, Fin 3])
   \<and> length [Fin 1, NegInf, Fin 3] < 2 ^ 32
   \<and> sums_to_one (computeSoftmax [Fin 1, NegInf, Fin 3])
   \<and> list_all in_unit_interval (computeSoftmax [Fin 1, NegInf, Fin 3])"
  using softmax_distribution [of "[Fin 1, NegInf, Fin 3]"] by (simp add: Math_max_def)

text \<open>
  C2 as stated fails: for the empty vector the output is empty and sums to 0; for a
  vector with a \<open>NaN\<close> entry, with an \<open>Infinity\<close> entry, or of \<open>-Infinity\<close> only, every
  output is \<open>NaN\<close>.
\<close>

theorem softmax_distribution_counterexample:
  "computeSoftmax [] = [] \<and> \<not> sums_to_one (computeSoftmax [])
   \<and> computeSoftmax [Fin 0, NaN] = [NaN, NaN]
   \<and> computeSoftmax [Fin 0, PosInf] = [NaN, NaN]
   \<and> computeSoftmax [NegInf] = [NaN]
   \<and> \<not> list_all in_unit_interval [NaN, NaN] \<and> \<not> sums_to_one [NaN, NaN]
   \<and> \<not> list_all in_unit_interval [NaN] \<and> \<not> sums_to_one [NaN]"
  by (simp add: computeSoftmax_def Math_max_def sums_to_one_def num_sub_def)




section \<open>Properties of the ranking\<close>

lemma length_sort_insert: "length (sort_insert cmp x ys) = Suc (length ys)"
  by (induction ys) simp_all

lemma set_sort_insert: "set (sort_insert cmp x ys) = insert x (set ys)"
  by (induction ys) auto

lemma length_Array_sort: "length (Array_sort cmp xs) = length xs"
  by (induction xs) (simp_all add: Array_sort_def length_sort_insert)

lemma set_Array_sort: "set (Array_sort cmp xs) = set xs"
  by (induction xs) (simp_all add: Array_sort_def set_sort_insert)

lemma Array_sort_Cons: "Array_sort cmp (x # xs) = sort_insert cmp x (Array_sort cmp xs)"
  by (simp add: Array_sort_def)

lemma distinct_map_sort_insert:
  "distinct (map f (sort_insert cmp x ys)) \<longleftrightarrow> f x \<notin> f ` set ys \<and> distinct (map f ys)"
  by (induction ys) (auto simp: set_sort_insert)

lemma distinct_map_Array_sort:
  "distinct (map f (Array_sort cmp xs)) = distinct (map f xs)"
  by (induction xs) (simp_all add: Array_sort_Cons distinct_map_sort_insert set_Array_sort, simp add: Array_sort_def)

text \<open>
  Two doubles differ by at least the smallest positive double, so their difference does
  not round to zero: on probabilities the comparator \<open>(a, b) => b.score - a.score\<close> is
  positive exactly when \<open>b\<close> has the higher score.
\<close>

lemma double_difference_pos:
  assumes x: "round_real 53 (- 1022) x = x" and y: "round_real 53 (- 1022) y = y" and "x < y"
  shows "0 < round_real 53 (- 1022) (y - x)"
proof -
  let ?g = "(2::real) powr of_int (- 1022 - (int 53 - 1))"
  from round_real_grid [of 53 "- 1022" x] x obtain N where N: "x = of_int N * ?g" by auto
  from round_real_grid [of 53 "- 1022" y] y obtain M where M: "y = of_int M * ?g" by auto
  have g: "0 < ?g" by simp
  from \<open>x < y\<close> have "of_int N * ?g < of_int M * ?g" by (simp only: N [symmetric] M [symmetric])
  then have "(of_int N :: real) < of_int M" using g by (simp only: mult_less_cancel_right_pos)
  then have "N + 1 \<le> M" by simp
  then have "(of_int (N + 1) :: real) \<le> of_int M" by (simp only: of_int_le_iff)
  then have "1 \<le> (of_int M :: real) - of_int N" by simp
  then have "1 * ?g \<le> (of_int M - of_int N) * ?g" using g by (intro mult_right_mono) simp_all
  then have "?g \<le> y - x" by (simp add: M N algebra_simps)
  then show ?thesis by (intro round_real_pos) simp_all
qed

lemma comparator_probability:
  assumes "is_probability (score x)" "is_probability (score y)"
  shows "num_gt (num_sub (score y) (score x)) (Fin 0) = num_gt (score y) (score x)"
proof -
  from assms(1) obtain a where a: "score x = Fin a" "0 \<le> a" "a \<le> 1" "round_real 53 (- 1022) a = a"
    by (auto elim: is_probabilityE)
  from assms(2) obtain b where b: "score y = Fin b" "0 \<le> b" "b \<le> 1" "round_real 53 (- 1022) b = b"
    by (auto elim: is_probabilityE)
  have "\<bar>b + - a\<bar> \<le> 2 powr 1023"
    using a(2,3) b(2,3) one_le_two_powr_1023 by linarith
  then have d: "double (b + - a) = Fin (round_real 53 (- 1022) (b + - a))" by (rule double_finite)
  have "0 < round_real 53 (- 1022) (b + - a) \<longleftrightarrow> a < b"
  proof
    assume "a < b"
    from double_difference_pos [OF a(4) b(4) this] show "0 < round_real 53 (- 1022) (b + - a)"
      by simp
  next
    assume pos: "0 < round_real 53 (- 1022) (b + - a)"
    show "a < b"
    proof (rule ccontr)
      assume "\<not> a < b"
      then have "b + - a \<le> 0" by simp
      then have "round_real 53 (- 1022) (b + - a) \<le> 0" by (rule round_real_nonpos)
      with pos show False by simp
    qed
  qed
  moreover have "num_sub (score y) (score x) = Fin (round_real 53 (- 1022) (b + - a))"
    unfolding a(1) b(1) num_sub_def using d by simp
  ultimately show ?thesis by (simp add: a(1) b(1))
qed

lemma is_probability_finite: "is_probability x \<Longrightarrow> is_finite x"
  by (cases x) (simp_all add: is_probability_def)

lemma ranked_trans:
  assumes "is_finite (score x)" "is_finite (score y)" "is_finite (score z)"
    and "ranked x y" "ranked y z"
  shows "ranked x z"
  using assms by (cases "score x"; cases "score y"; cases "score z") (auto simp: ranked_def)

lemma ranked_total:
  assumes "is_finite (score x)" "is_finite (score y)" "index x < index y"
    and "\<not> num_gt (score y) (score x)"
  shows "ranked x y"
  using assms by (cases "score x"; cases "score y") (auto simp: ranked_def)

lemma sorted_sort_insert:
  fixes x :: indexedScore
  assumes fin: "is_probability (score x)" "\<forall>y\<in>set ys. is_probability (score y)"
    and later: "\<forall>y\<in>set ys. index x < index y"
    and srt: "sorted_wrt ranked ys"
  shows "sorted_wrt ranked (sort_insert (\<lambda>a b. num_sub (score b) (score a)) x ys)"
  using fin(2) later srt
proof (induction ys)
  case Nil
  then show ?case by simp
next
  case (Cons y ys)
  let ?cmp = "\<lambda>a b. num_sub (score b) (score a)"
  have py: "is_probability (score y)" using Cons.prems(1) by simp
  note fx = is_probability_finite [OF fin(1)] and fy = is_probability_finite [OF py]
  show ?case
  proof (cases "num_gt (score y) (score x)")
    case True
    then have yx: "ranked y x" by (simp add: ranked_def)
    have "sorted_wrt ranked (sort_insert ?cmp x ys)"
      using Cons by simp
    moreover have "\<forall>z\<in>set (sort_insert ?cmp x ys). ranked y z"
      using Cons.prems(3) yx by (auto simp: set_sort_insert)
    ultimately show ?thesis
      using True by (simp add: comparator_probability [OF fin(1) py])
  next
    case False
    have xy: "ranked x y"
      using fx fy Cons.prems(2) False by (intro ranked_total) auto
    have "ranked x z" if "z \<in> set ys" for z
    proof -
      have "ranked y z" using Cons.prems(3) that by simp
      moreover have "is_finite (score z)" using Cons.prems(1) that is_probability_finite by simp
      ultimately show ?thesis using ranked_trans [OF fx fy _ xy] by blast
    qed
    then show ?thesis
      using False xy Cons.prems(3) by (simp add: comparator_probability [OF fin(1) py])
  qed
qed

lemma sorted_Array_sort:
  fixes xs :: "indexedScore list"
  assumes "\<forall>x\<in>set xs. is_probability (score x)"
    and "sorted_wrt (\<lambda>x y. index x < index y) xs"
  shows "sorted_wrt ranked (Array_sort (\<lambda>a b. num_sub (score b) (score a)) xs)"
  using assms
proof (induction xs)
  case Nil
  then show ?case by (simp add: Array_sort_def)
next
  case (Cons x xs)
  show ?case
    unfolding Array_sort_Cons
  proof (rule sorted_sort_insert)
    show "is_probability (score x)" using Cons.prems(1) by simp
    show "\<forall>y\<in>set (Array_sort (\<lambda>a b. num_sub (score b) (score a)) xs). is_probability (score y)"
      using Cons.prems(1) by (simp add: set_Array_sort)
    show "\<forall>y\<in>set (Array_sort (\<lambda>a b. num_sub (score b) (score a)) xs). index x < index y"
      using Cons.prems(2) by (simp add: set_Array_sort)
    show "sorted_wrt ranked (Array_sort (\<lambda>a b. num_sub (score b) (score a)) xs)"
      using Cons by simp
  qed
qed

lemma indexedScores_eq:
  "indexedScores ps = map (\<lambda>i. \<lparr>score = ps ! i, index = i\<rparr>) [0..<length ps]"
  by (rule nth_equalityI) (simp_all add: indexedScores_def nth_enumerate_eq)

lemma length_indexedScores: "length (indexedScores ps) = length ps"
  by (simp add: indexedScores_eq)

lemma map_index_indexedScores: "map index (indexedScores ps) = [0..<length ps]"
  by (simp add: indexedScores_eq comp_def)

lemma indexedScores_increasing: "sorted_wrt (\<lambda>x y. index x < index y) (indexedScores ps)"
  by (simp add: indexedScores_eq sorted_wrt_map sorted_wrt_iff_nth_less)

lemma indexedScores_member:
  "x \<in> set (indexedScores ps) \<Longrightarrow> index x < length ps \<and> score x = ps ! index x"
  by (auto simp: indexedScores_eq)

lemma length_sortedResults: "length (sortedResults ps) = length ps"
  by (simp add: sortedResults_def length_Array_sort length_indexedScores)

lemma set_sortedResults: "set (sortedResults ps) = set (indexedScores ps)"
  by (simp add: sortedResults_def set_Array_sort)

lemma distinct_sortedResults: "distinct (map index (sortedResults ps))"
  by (simp add: sortedResults_def distinct_map_Array_sort map_index_indexedScores)

lemma set_index_sortedResults: "index ` set (sortedResults ps) = {0..<length ps}"
proof -
  have "index ` set (sortedResults ps) = set (map index (indexedScores ps))"
    by (simp add: set_sortedResults)
  then show ?thesis by (simp only: map_index_indexedScores set_upt)
qed

lemma sorted_sortedResults:
  assumes "list_all is_probability ps"
  shows "sorted_wrt ranked (sortedResults ps)"
  unfolding sortedResults_def
proof (rule sorted_Array_sort)
  show "\<forall>x\<in>set (indexedScores ps). is_probability (score x)"
    using assms indexedScores_member [of _ ps] by (auto simp: list_all_length)
  show "sorted_wrt (\<lambda>x y. index x < index y) (indexedScores ps)"
    by (rule indexedScores_increasing)
qed

lemma length_computeSoftmax: "length (computeSoftmax logits) = length logits"
  by (simp add: computeSoftmax_def Let_def)

lemma length_topPredictions:
  "length (topPredictions labels outputData) = min 10 (length outputData)"
  by (simp add: topPredictions_def Let_def length_sortedResults length_computeSoftmax)

lemma nth_topPredictions:
  assumes "i < length (topPredictions labels outputData)"
  shows "score (topPredictions labels outputData ! i) = score (sortedResults (computeSoftmax outputData) ! i)"
    and "index (topPredictions labels outputData ! i) = index (sortedResults (computeSoftmax outputData) ! i)"
    and "label (topPredictions labels outputData ! i)
           = labels_at labels (index (sortedResults (computeSoftmax outputData) ! i))"
  using assms by (simp_all add: topPredictions_def Let_def)

lemma map_index_topPredictions:
  "map index (topPredictions labels outputData)
     = take 10 (map index (sortedResults (computeSoftmax outputData)))"
  by (simp add: topPredictions_def Let_def take_map comp_def)

lemma distinct_topPredictions: "distinct (map index (topPredictions labels outputData))"
  by (simp only: map_index_topPredictions distinct_take distinct_sortedResults)

lemma all_topPredictions:
  assumes "length outputData \<le> 10"
  shows "index ` set (topPredictions labels outputData) = {0..<length outputData}"
proof -
  have "take 10 (map index (sortedResults (computeSoftmax outputData)))
      = map index (sortedResults (computeSoftmax outputData))"
    using assms by (simp add: length_sortedResults length_computeSoftmax)
  then have "set (map index (topPredictions labels outputData))
      = set (map index (sortedResults (computeSoftmax outputData)))"
    by (simp only: map_index_topPredictions)
  then show ?thesis
    using set_index_sortedResults [of "computeSoftmax outputData"]
    by (simp add: length_computeSoftmax)
qed

lemma topPredictions_member:
  assumes "p \<in> set (topPredictions labels outputData)"
  shows "index p < length outputData"
    and "label p = labels_at labels (index p)"
    and "score p = computeSoftmax outputData ! index p"
proof -
  from assms obtain x where x: "x \<in> set (sortedResults (computeSoftmax outputData))"
    and p: "p = \<lparr>score = score x, index = index x, label = labels_at labels (index x)\<rparr>"
    by (auto simp: topPredictions_def Let_def dest: in_set_takeD)
  from x have "x \<in> set (indexedScores (computeSoftmax outputData))"
    by (simp add: set_sortedResults)
  then have "index x < length (computeSoftmax outputData)"
    and "score x = computeSoftmax outputData ! index x"
    using indexedScores_member by blast+
  then show "index p < length outputData" "label p = labels_at labels (index p)"
    "score p = computeSoftmax outputData ! index p"
    by (simp_all add: p length_computeSoftmax)
qed

lemma ranked_ge:
  assumes "is_finite (score x)" "is_finite (score y)" "ranked x y"
  shows "num_ge (score x) (score y)"
  using assms by (cases "score x"; cases "score y") (auto simp: ranked_def)

lemma ranked_tie:
  assumes "is_finite (score x)" "ranked x y" "score x = score y"
  shows "index x < index y"
proof -
  from assms(1) obtain r where x: "score x = Fin r" by (cases "score x") auto
  with assms(3) have y: "score y = Fin r" by simp
  from assms(2) show ?thesis by (simp add: ranked_def x y)
qed

lemma softmax_zeros: "computeSoftmax [Fin 0, Fin 0] = [Fin (1/2), Fin (1/2)]"
  by (rule computeSoftmax_pair)

lemma topPredictions_zeros:
  "topPredictions labels [Fin 0, Fin 0] =
     [\<lparr>score = Fin (1/2), index = 0, label = labels_at labels 0\<rparr>,
      \<lparr>score = Fin (1/2), index = 1, label = labels_at labels 1\<rparr>]"
  by (simp add: topPredictions_def softmax_zeros sortedResults_def indexedScores_def
      Array_sort_def num_sub_def enumerate_simps)

lemma topPredictions_NaN:
  "topPredictions labels [NaN, NaN] =
     [\<lparr>score = NaN, index = 0, label = labels_at labels 0\<rparr>,
      \<lparr>score = NaN, index = 1, label = labels_at labels 1\<rparr>]"
  by (simp add: topPredictions_def computeSoftmax_def Math_max_def sortedResults_def
      indexedScores_def Array_sort_def num_sub_def enumerate_simps)

section \<open>Properties of the detection\<close>

lemma detectImage_eq:
  "detectImage E labels x s =
     (case runResNetModel E x (record_event Now s) of
        (Inl e, s2) \<Rightarrow> (None, s2)
      | (Inr (outputData, t), s2) \<Rightarrow>
          (Some \<lparr>predictions = topPredictions labels outputData,
                 executionTimeMs = env_now E (events s2) - env_now E (events s)\<rparr>,
           record_event Now s2))"
  by (simp add: detectImage_def Let_def split: prod.split sum.split)

lemma detectImage_success:
  assumes "runResNetModel E x (record_event Now s) = (Inr (outputData, t), s2)"
  shows "detectImage E labels x s =
           (Some \<lparr>predictions = topPredictions labels outputData,
                  executionTimeMs = env_now E (events s2) - env_now E (events s)\<rparr>,
            record_event Now s2)"
  by (simp add: detectImage_eq assms)

lemma detectImage_failure:
  assumes "runResNetModel E x (record_event Now s) = (Inl e, s2)"
  shows "detectImage E labels x s = (None, s2)"
  by (simp add: detectImage_eq assms)

lemma length_blank: "length blank = 150528"
  by (simp add: blank_def)

lemma run_working:
  "fst (runResNetModel (working out) blank s) = Inr (out, 2)"
  by (simp add: runResNetModel_def createModelSession_def getModelData_def working_def
      record_event_def length_blank Let_def split: option.split)

lemma run_offline:
  "cachedModelData s = None \<Longrightarrow> fst (runResNetModel (offline n) x s) = Inl (External n)"
  by (simp add: runResNetModel_def createModelSession_def getModelData_def offline_def
      record_event_def Let_def)

lemma run_working_pair:
  "runResNetModel (working out) blank s = (Inr (out, 2), snd (runResNetModel (working out) blank s))"
  using run_working [of out s] by (simp add: prod_eq_iff)

text \<open>
  When the largest engine score is not a finite number, every prediction has the score
  \<open>NaN\<close>, which \<open>>=\<close> orders with nothing.
\<close>

lemma ranking_undefined:
  assumes "\<not> is_finite (Math_max outputData)"
    and "p \<in> set (topPredictions labels outputData)"
  shows "score p = NaN"
proof -
  from topPredictions_member [OF assms(2)]
  have "index p < length (computeSoftmax outputData)"
    and "score p = computeSoftmax outputData ! index p"
    by (simp_all add: length_computeSoftmax)
  then have "score p \<in> set (computeSoftmax outputData)" by simp
  with assms(1) show ?thesis by (rule softmax_all_NaN)
qed

text \<open>
  C3 (amended). Whenever the largest engine score, \<open>Math.max(...outputData)\<close>, is a
  finite number, the ranked prediction list is sorted by score in descending order: for
  all positions \<open>i < j\<close> in the output, \<open>predictions[i].score >= predictions[j].score\<close>,
  and when the two scores are exactly equal the prediction with the lower original index
  comes first. The score of each prediction is the probability that \<open>computeSoftmax\<close>
  gives at its index.
\<close>

theorem ranking_sorted_stable:
  assumes fin: "is_finite (Math_max outputData)"
    and ij: "i < j" "j < length (topPredictions labels outputData)"
  shows "num_ge (score (topPredictions labels outputData ! i))
                (score (topPredictions labels outputData ! j))
       \<and> (score (topPredictions labels outputData ! i) = score (topPredictions labels outputData ! j)
            \<longrightarrow> index (topPredictions labels outputData ! i)
                  < index (topPredictions labels outputData ! j))
       \<and> score (topPredictions labels outputData ! i)
           = computeSoftmax outputData ! index (topPredictions labels outputData ! i)
       \<and> score (topPredictions labels outputData ! j)
           = computeSoftmax outputData ! index (topPredictions labels outputData ! j)"
proof -
  let ?ps = "computeSoftmax outputData"
  let ?sr = "sortedResults ?ps"
  let ?tp = "topPredictions labels outputData"
  have pp: "list_all is_probability ?ps" using fin by (rule softmax_probabilities)
  have j: "j < length ?sr" using ij(2) by (simp add: length_topPredictions length_sortedResults length_computeSoftmax)
  with ij(1) have i: "i < length ?sr" by simp
  have r: "ranked (?sr ! i) (?sr ! j)"
    using sorted_sortedResults [OF pp] ij(1) j by (simp add: sorted_wrt_iff_nth_less)
  have mem: "?sr ! k \<in> set (indexedScores ?ps)" if "k < length ?sr" for k
    using that set_sortedResults [of ?ps] nth_mem by blast
  have f: "is_finite (score (?sr ! k))" if "k < length ?sr" for k
    using indexedScores_member [OF mem [OF that]] pp is_probability_finite
    by (auto simp: list_all_length)
  have ge: "num_ge (score (?sr ! i)) (score (?sr ! j))"
    using f [OF i] f [OF j] r by (rule ranked_ge)
  have tie: "index (?sr ! i) < index (?sr ! j)" if "score (?sr ! i) = score (?sr ! j)"
    using f [OF i] r that by (rule ranked_tie)
  have ti: "i < length ?tp" using ij by simp
  have si: "score (?tp ! i) = ?ps ! index (?tp ! i)"
    by (rule topPredictions_member(3) [OF nth_mem [OF ti]])
  have sj: "score (?tp ! j) = ?ps ! index (?tp ! j)"
    by (rule topPredictions_member(3) [OF nth_mem [OF ij(2)]])
  have "num_ge (score (?tp ! i)) (score (?tp ! j))
      \<and> (score (?tp ! i) = score (?tp ! j) \<longrightarrow> index (?tp ! i) < index (?tp ! j))"
    using ge tie by (simp add: nth_topPredictions [OF ti] nth_topPredictions [OF ij(2)])
  with si sj show ?thesis by blast
qed

text \<open>
  The logits \<open>[1, -Infinity, 3]\<close> for the order, and two equal logits for the tie: the
  two probabilities are both 1/2 and index 0 stays before index 1.
\<close>

theorem ranking_sorted_stable_witness:
  "is_finite (Math_max [Fin 1, NegInf, Fin 3]) \<and> (0::nat) < 1
   \<and> 1 < length (topPredictions [''a'', ''b'', ''c''] [Fin 1, NegInf, Fin 3])
   \<and> num_ge (score (topPredictions [''a'', ''b'', ''c''] [Fin 1, NegInf, Fin 3] ! 0))
             (score (topPredictions [''a'', ''b'', ''c''] [Fin 1, NegInf, Fin 3] ! 1))
   \<and> score (topPredictions [''a'', ''b'', ''c''] [Fin 1, NegInf, Fin 3] ! 0)
       = computeSoftmax [Fin 1, NegInf, Fin 3]
           ! index (topPredictions [''a'', ''b'', ''c''] [Fin 1, NegInf, Fin 3] ! 0)
   \<and> is_finite (Math_max [Fin 0, Fin 0])
   \<and> 1 < length (topPredictions [''a'', ''b''] [Fin 0, Fin 0])
   \<and> score (topPredictions [''a'', ''b''] [Fin 0, Fin 0] ! 0)
       = score (topPredictions [''a'', ''b''] [Fin 0, Fin 0] ! 1)
   \<and> index (topPredictions [''a'', ''b''] [Fin 0, Fin 0] ! 0)
       < index (topPredictions [''a'', ''b''] [Fin 0, Fin 0] ! 1)"
proof -
  have m3: "is_finite (Math_max [Fin 1, NegInf, Fin 3])" by (simp add: Math_max_def)
  have m2: "is_finite (Math_max [Fin 0, Fin 0])" by (simp add: Math_max_def)
  have l3: "1 < length (topPredictions [''a'', ''b'', ''c''] [Fin 1, NegInf, Fin 3])"
    by (simp add: length_topPredictions)
  have l2: "1 < length (topPredictions [''a'', ''b''] [Fin 0, Fin 0])"
    by (simp add: length_topPredictions)
  have eq: "score (topPredictions [''a'', ''b''] [Fin 0, Fin 0] ! 0)
       = score (topPredictions [''a'', ''b''] [Fin 0, Fin 0] ! 1)"
    by (simp add: topPredictions_zeros)
  have z: "(0::nat) < 1" by simp
  from ranking_sorted_stable [OF m3 z l3] ranking_sorted_stable [OF m2 z l2] eq m3 m2 l3 l2 z
  show ?thesis by blast
qed

text \<open>
  C3 as stated fails: when the engine scores are \<open>NaN\<close> (or contain \<open>Infinity\<close>, or are
  all \<open>-Infinity\<close>) every probability is \<open>NaN\<close>, the two predictions are returned, and
  \<open>predictions[0].score >= predictions[1].score\<close> is false.
\<close>

theorem ranking_sorted_stable_counterexample:
  "length (topPredictions [''a'', ''b''] [NaN, NaN]) = 2
   \<and> \<not> num_ge (score (topPredictions [''a'', ''b''] [NaN, NaN] ! 0))
               (score (topPredictions [''a'', ''b''] [NaN, NaN] ! 1))"
  by (simp add: topPredictions_NaN)

text \<open>
  C4 (amended). \<open>detectImage\<close> takes no parameter \<open>k\<close>: the number of predictions is
  \<open>min K n\<close> for \<open>n\<close> scores, where \<open>K\<close> is a constant of the function body that the
  caller cannot choose (the \<open>10\<close> of \<open>slice(0, 10)\<close>). Whenever the inference succeeds,
  \<open>detectImage\<close> returns a result, without error; its predictions are \<open>min K n\<close> entries
  of the ranking with pairwise different indices, each below \<open>n\<close> and each with the
  probability of its index; when \<open>n\<close> is at most \<open>K\<close> they are all \<open>n\<close> entries. No
  access to the scores is out of bounds, and when the vocabulary has at least \<open>n\<close> labels
  every label lookup is within the vocabulary.
\<close>

theorem prediction_count_fixed:
  assumes "runResNetModel E x (record_event Now s) = (Inr (outputData, t), s2)"
  shows "\<exists>r s3. detectImage E labels x s = (Some r, s3)
           \<and> length (predictions r) = min 10 (length outputData)
           \<and> distinct (map index (predictions r))
           \<and> (length outputData \<le> 10
                \<longrightarrow> index ` set (predictions r) = {0..<length outputData})
           \<and> (\<forall>p\<in>set (predictions r).
                 index p < length outputData
                 \<and> score p = computeSoftmax outputData ! index p
                 \<and> (length outputData \<le> length labels
                      \<longrightarrow> label p = Some (labels ! index p)))"
proof -
  let ?tp = "topPredictions labels outputData"
  have "label p = Some (labels ! index p)"
    if "p \<in> set ?tp" "length outputData \<le> length labels" for p
    using topPredictions_member(1,2) [OF that(1)] that(2) by (simp add: labels_at_def)
  then have "\<forall>p\<in>set ?tp. index p < length outputData
                 \<and> score p = computeSoftmax outputData ! index p
                 \<and> (length outputData \<le> length labels
                      \<longrightarrow> label p = Some (labels ! index p))"
    using topPredictions_member(1,3) [of _ labels outputData] by blast
  moreover have "length outputData \<le> 10 \<longrightarrow> index ` set ?tp = {0..<length outputData}"
    using all_topPredictions [of outputData labels] by blast
  ultimately show ?thesis
    using distinct_topPredictions [of labels outputData]
    by (simp add: detectImage_success [OF assms] length_topPredictions)
qed

text \<open>Twelve scores give ten predictions; two scores give both entries.\<close>

theorem prediction_count_fixed_witness:
  "(\<exists>r s3. detectImage (working (replicate 12 (Fin 0))) (replicate 12 ''x'') blank initial = (Some r, s3)
           \<and> length (predictions r) = 10 \<and> distinct (map index (predictions r)))
   \<and> (\<exists>r s3. detectImage (working [Fin 0, Fin 0]) [''a'', ''b''] blank initial = (Some r, s3)
           \<and> length (predictions r) = 2 \<and> index ` set (predictions r) = {0..<2})"
proof -
  have "\<exists>r s3. detectImage (working (replicate 12 (Fin 0))) (replicate 12 ''x'') blank initial = (Some r, s3)
           \<and> length (predictions r) = 10 \<and> distinct (map index (predictions r))"
    using prediction_count_fixed [OF run_working_pair [of "replicate 12 (Fin 0)" "record_event Now initial"],
      where labels = "replicate 12 ''x''"]
    by auto
  moreover have "\<exists>r s3. detectImage (working [Fin 0, Fin 0]) [''a'', ''b''] blank initial = (Some r, s3)
           \<and> length (predictions r) = 2 \<and> index ` set (predictions r) = {0..<2}"
    using prediction_count_fixed [OF run_working_pair [of "[Fin 0, Fin 0]" "record_event Now initial"],
      where labels = "[''a'', ''b'']"]
    by auto
  ultimately show ?thesis by blast
qed

text \<open>
  C4 as stated fails. With the vocabulary \<open>a, b, c\<close> and the logits \<open>[1, 2, 3]\<close> of the
  specification's scenario, a caller who wants \<open>k = 2\<close> gets 3 predictions; with 12
  scores and a vocabulary of 12 labels, a caller who wants all entries does not get 12.
\<close>

theorem prediction_count_fixed_counterexample:
  "length (topPredictions [''a'', ''b'', ''c''] [Fin 1, Fin 2, Fin 3]) = 3
   \<and> length (topPredictions (replicate 12 ''x'') (replicate 12 (Fin 0))) < 12"
  by (simp add: length_topPredictions)

text \<open>
  C5 (amended). There is no check of the lengths. Whenever the inference succeeds,
  whatever the lengths of the scores and of the vocabulary, \<open>detectImage\<close> returns
  \<open>min 10 n\<close> predictions for \<open>n\<close> scores; each carries an index below \<open>n\<close> and the label
  \<open>labels[index]\<close>, which is \<open>undefined\<close> when the index lies beyond the vocabulary.
\<close>

theorem no_dimension_check:
  assumes "runResNetModel E x (record_event Now s) = (Inr (outputData, t), s2)"
  shows "\<exists>r s3. detectImage E labels x s = (Some r, s3)
           \<and> length (predictions r) = min 10 (length outputData)
           \<and> (\<forall>p\<in>set (predictions r).
                 index p < length outputData
                 \<and> label p = (if index p < length labels then Some (labels ! index p) else None))"
  using topPredictions_member(1,2) [of _ labels outputData]
  by (simp add: detectImage_success [OF assms] length_topPredictions labels_at_def)

text \<open>Two scores and a vocabulary of one label: two predictions.\<close>

theorem no_dimension_check_witness:
  "\<exists>r s3. detectImage (working [Fin 0, Fin 0]) [''a''] blank initial = (Some r, s3)
           \<and> length (predictions r) = 2"
  using no_dimension_check [OF run_working_pair [of "[Fin 0, Fin 0]" "record_event Now initial"],
      where labels = "[''a'']"]
  by auto

text \<open>
  C5 as stated fails: with two scores and the one-label vocabulary \<open>a\<close> the ranking is
  returned, and its second prediction has no label.
\<close>

theorem no_dimension_check_counterexample:
  "map label (topPredictions [''a''] [Fin 0, Fin 0]) = [Some ''a'', None]"
  by (simp add: topPredictions_zeros labels_at_def)

text \<open>
  C6 (amended). A failure to decode leaves \<open>preprocessImage\<close> as the error that
  \<open>Jimp.read\<close> raised. \<open>detectImage\<close> returns \<open>null\<close> when the inference fails, whatever
  the error, and otherwise a result whose predictions and time are both set: it never
  returns a partly filled result, and it never passes the error on to its caller.
\<close>

theorem pipeline_outcome:
  "preprocessImage J src =
     (case jimp_read J src of
        Inl e \<Rightarrow> Inl e
      | Inr decoded \<Rightarrow>
          Inr (processPixels (jimp_getPixelColor J (jimp_resize J decoded 224 224))))
   \<and> fst (detectImage E labels x s) =
     (case runResNetModel E x (record_event Now s) of
        (Inl e, s2) \<Rightarrow> None
      | (Inr (outputData, t), s2) \<Rightarrow>
          Some \<lparr>predictions = topPredictions labels outputData,
                executionTimeMs = env_now E (events s2) - env_now E (events s)\<rparr>)"
  by (simp add: preprocessImage_def detectImage_eq split: prod.split sum.split)

text \<open>
  An image that does not decode, a failing fetch, and a run that succeeds after six
  external calls.
\<close>

theorem pipeline_outcome_witness:
  "preprocessImage undecodable () = Inl (External 7)
   \<and> fst (detectImage (offline 1) [''a''] blank initial) = None
   \<and> fst (detectImage (working [Fin 0, Fin 0]) [''a'', ''b''] blank initial) =
       Some \<lparr>predictions =
               [\<lparr>score = Fin (1/2), index = 0, label = Some ''a''\<rparr>,
                \<lparr>score = Fin (1/2), index = 1, label = Some ''b''\<rparr>],
             executionTimeMs = 6\<rparr>"
proof -
  have off: "fst (runResNetModel (offline 1) blank (record_event Now initial)) = Inl (External 1)"
    by (rule run_offline) (simp add: record_event_def initial_def)
  have p: "preprocessImage undecodable () = Inl (External 7)"
    using pipeline_outcome [of undecodable "()", THEN conjunct1] by (simp add: undecodable_def)
  have a: "fst (detectImage (offline 1) [''a''] blank initial) = None"
    using pipeline_outcome [of solid_red "()" "offline 1" "[''a'']" blank initial, THEN conjunct2] off
    by (simp split: prod.splits sum.splits)
  have ev: "events (snd (runResNetModel (working [Fin 0, Fin 0]) blank (record_event Now initial)))
      = [Now, Fetch (Inr [1, 2, 3]), Create [1, 2, 3], Now, Run 0, Now]"
    by (simp add: runResNetModel_def createModelSession_def getModelData_def working_def
      record_event_def initial_def length_blank Let_def)
  have b: "fst (detectImage (working [Fin 0, Fin 0]) [''a'', ''b''] blank initial) =
       Some \<lparr>predictions =
               [\<lparr>score = Fin (1/2), index = 0, label = Some ''a''\<rparr>,
                \<lparr>score = Fin (1/2), index = 1, label = Some ''b''\<rparr>],
             executionTimeMs = 6\<rparr>"
    using pipeline_outcome [of solid_red "()" "working [Fin 0, Fin 0]" "[''a'', ''b'']" blank initial,
        THEN conjunct2]
      run_working [of "[Fin 0, Fin 0]" "record_event Now initial"] ev
    by (simp add: topPredictions_zeros labels_at_def split: prod.splits sum.splits)
       (simp add: working_def initial_def)
  from p a b show ?thesis by simp
qed

text \<open>
  C6 as stated fails: when the fetch of the model fails with \<open>External 1\<close>, or with
  \<open>External 2\<close>, the inference step fails with that error and \<open>detectImage\<close> returns
  \<open>null\<close> in both cases; the caller receives no error.
\<close>

theorem detectImage_swallows_error:
  "fst (runResNetModel (offline 1) blank (record_event Now initial)) = Inl (External 1)
   \<and> fst (detectImage (offline 1) [''a''] blank initial) = None
   \<and> fst (runResNetModel (offline 2) blank (record_event Now initial)) = Inl (External 2)
   \<and> fst (detectImage (offline 2) [''a''] blank initial) = None"
proof -
  have off: "fst (runResNetModel (offline n) blank (record_event Now initial)) = Inl (External n)" for n
    by (rule run_offline) (simp add: record_event_def initial_def)
  have "fst (detectImage (offline n) [''a''] blank initial) = None" for n
    using off [of n] by (auto simp add: detectImage_eq split: prod.splits sum.splits)
  with off show ?thesis by simp
qed

section \<open>Properties of the model cache\<close>




































end
